theory Spec2Isabelle
  imports Complex_Main "HOL-Library.Word"
begin

unbundle bit_operations_syntax

section \<open>Data model\<close>

text \<open>
  A \<^verbatim>\<open>Uint8Array\<close> is a list of 8-bit words. A JavaScript string is the list of its
  UTF-16 code units, each a natural number below 65536. Exceptions thrown by the host
  platform are values of \<open>js_error\<close>; a function that can throw returns
  \<open>js_error + 'a\<close> with \<open>Inl\<close> for the exception.
\<close>

type_synonym byte = "8 word"
type_synonym js_string = "nat list"

datatype js_error = InvalidCharacterError | RangeError | NotSupportedError

section \<open>Binary/text codec (utils/audioUtils.ts)\<close>

subsection \<open>Host functions: \<^verbatim>\<open>btoa\<close> and \<^verbatim>\<open>atob\<close>\<close>

text \<open>
  \<^verbatim>\<open>btoa\<close> and \<^verbatim>\<open>atob\<close> belong to the browser, not to the repository. They are
  modelled after the HTML standard: \<^verbatim>\<open>btoa\<close> throws \<open>InvalidCharacterError\<close> when a code
  unit exceeds 0xFF and otherwise applies RFC 4648 base64 with padding; \<^verbatim>\<open>atob\<close> is the
  standard's forgiving-base64 decode.
\<close>

text \<open>The base64 alphabet: the code unit of a 6-bit value.\<close>

definition b64_char :: "nat \<Rightarrow> nat" where
  "b64_char n =
     (if n < 26 then 65 + n
      else if n < 52 then 97 + (n - 26)
      else if n < 62 then 48 + (n - 52)
      else if n = 62 then 43
      else 47)"

text \<open>The 6-bit value of a code unit of the alphabet, \<open>None\<close> for any other code unit.\<close>

definition b64_value :: "nat \<Rightarrow> nat option" where
  "b64_value c =
     (if 65 \<le> c \<and> c \<le> 90 then Some (c - 65)
      else if 97 \<le> c \<and> c \<le> 122 then Some (c - 71)
      else if 48 \<le> c \<and> c \<le> 57 then Some (c + 4)
      else if c = 43 then Some 62
      else if c = 47 then Some 63
      else None)"

text \<open>RFC 4648 encoding of a sequence of octets, three at a time, padded with \<open>=\<close> (61).\<close>

fun b64_encode :: "nat list \<Rightarrow> js_string" where
  "b64_encode [] = []"
| "b64_encode [a] =
     [b64_char (a div 4), b64_char ((a mod 4) * 16), 61, 61]"
| "b64_encode [a, b] =
     [b64_char (a div 4), b64_char ((a mod 4) * 16 + b div 16),
      b64_char ((b mod 16) * 4), 61]"
| "b64_encode (a # b # c # rest) =
     [b64_char (a div 4), b64_char ((a mod 4) * 16 + b div 16),
      b64_char ((b mod 16) * 4 + c div 64), b64_char (c mod 64)] @ b64_encode rest"

definition btoa :: "js_string \<Rightarrow> js_error + js_string" where
  "btoa s =
     (if list_all (\<lambda>c. c < 256) s then Inr (b64_encode s) else Inl InvalidCharacterError)"

text \<open>ASCII whitespace: TAB, LF, FF, CR and SPACE.\<close>

definition ascii_whitespace :: "nat \<Rightarrow> bool" where
  "ascii_whitespace c = (c = 9 \<or> c = 10 \<or> c = 12 \<or> c = 13 \<or> c = 32)"

text \<open>
  Step 2 of forgiving-base64 decode: when the length is a multiple of four, one or two
  trailing \<open>=\<close> are removed.
\<close>

definition remove_padding :: "js_string \<Rightarrow> js_string" where
  "remove_padding d =
     (if length d mod 4 = 0 then
        (if 2 \<le> length d \<and> d ! (length d - 1) = 61 \<and> d ! (length d - 2) = 61
           then take (length d - 2) d
         else if 1 \<le> length d \<and> d ! (length d - 1) = 61
           then take (length d - 1) d
         else d)
      else d)"

text \<open>
  Steps 5 to 9: the 6-bit values are packed into octets, 24 bits at a time; 12 left-over
  bits give one octet (the last four bits are discarded), 18 give two (the last two are
  discarded).
\<close>

fun b64_octets :: "nat list \<Rightarrow> nat list" where
  "b64_octets (a # b # c # d # rest) =
     [a * 4 + b div 16, (b mod 16) * 16 + c div 4, (c mod 4) * 64 + d] @ b64_octets rest"
| "b64_octets [a, b, c] = [a * 4 + b div 16, (b mod 16) * 16 + c div 4]"
| "b64_octets [a, b] = [a * 4 + b div 16]"
| "b64_octets _ = []"

fun b64_values :: "js_string \<Rightarrow> nat list option" where
  "b64_values [] = Some []"
| "b64_values (c # cs) =
     (case b64_value c of
        None \<Rightarrow> None
      | Some v \<Rightarrow> (case b64_values cs of None \<Rightarrow> None | Some vs \<Rightarrow> Some (v # vs)))"

definition atob :: "js_string \<Rightarrow> js_error + js_string" where
  "atob s =
     (let d = remove_padding (filter (\<lambda>c. \<not> ascii_whitespace c) s) in
      if length d mod 4 = 1 then Inl InvalidCharacterError
      else (case b64_values d of
              None \<Rightarrow> Inl InvalidCharacterError
            | Some vs \<Rightarrow> Inr (b64_octets vs)))"

text \<open>
  Two functions used only in the proofs: the 6-bit values that \<open>b64_encode\<close> writes, and
  its padding.
\<close>

fun b64_sextets :: "nat list \<Rightarrow> nat list" where
  "b64_sextets [] = []"
| "b64_sextets [a] = [a div 4, (a mod 4) * 16]"
| "b64_sextets [a, b] = [a div 4, (a mod 4) * 16 + b div 16, (b mod 16) * 4]"
| "b64_sextets (a # b # c # rest) =
     [a div 4, (a mod 4) * 16 + b div 16, (b mod 16) * 4 + c div 64, c mod 64] @ b64_sextets rest"

fun b64_padding :: "nat list \<Rightarrow> js_string" where
  "b64_padding [] = []"
| "b64_padding [a] = [61, 61]"
| "b64_padding [a, b] = [61]"
| "b64_padding (a # b # c # rest) = b64_padding rest"

subsection \<open>\<^verbatim>\<open>encodeAudio\<close> and \<^verbatim>\<open>decodeAudio\<close>\<close>

definition chunkSize :: nat where
  "chunkSize = 0x8000"

text \<open>\<^verbatim>\<open>bytes.subarray(begin, end)\<close>, for \<open>begin \<le> end\<close>; both ends are clamped to the length.\<close>

definition subarray :: "'a list \<Rightarrow> nat \<Rightarrow> nat \<Rightarrow> 'a list" where
  "subarray bytes b e = take (e - b) (drop b bytes)"

text \<open>
  \<^verbatim>\<open>String.fromCharCode.apply(null, chunk)\<close>: one code unit per element, each converted
  with ToUint16.
\<close>

definition fromCharCode :: "byte list \<Rightarrow> js_string" where
  "fromCharCode chunk = map (\<lambda>b. unat b mod 65536) chunk"

text \<open>The loop of \<^verbatim>\<open>encodeAudio\<close>: \<open>i\<close> is the loop variable, \<open>binary\<close> the accumulator.\<close>

function encodeAudio_loop :: "byte list \<Rightarrow> nat \<Rightarrow> js_string \<Rightarrow> js_string" where
  "encodeAudio_loop bytes i binary =
     (if i < length bytes
      then encodeAudio_loop bytes (i + chunkSize)
             (binary @ fromCharCode (subarray bytes i (i + chunkSize)))
      else binary)"
  by pat_completeness auto
termination
  by (relation "measure (\<lambda>(bytes, i, binary). length bytes - i)") (auto simp: chunkSize_def)

declare encodeAudio_loop.simps [simp del]

definition encodeAudio :: "byte list \<Rightarrow> js_error + js_string" where
  "encodeAudio bytes = btoa (encodeAudio_loop bytes 0 [])"

text \<open>
  The loop of \<^verbatim>\<open>decodeAudio\<close>: \<^verbatim>\<open>bytes[i] = binaryString.charCodeAt(i)\<close>; the store into
  the \<^verbatim>\<open>Uint8Array\<close> keeps the low eight bits.
\<close>

function decodeAudio_loop :: "js_string \<Rightarrow> nat \<Rightarrow> byte list \<Rightarrow> byte list" where
  "decodeAudio_loop binaryString i bytes =
     (if i < length binaryString
      then decodeAudio_loop binaryString (i + 1) (bytes[i := of_nat (binaryString ! i)])
      else bytes)"
  by pat_completeness auto
termination
  by (relation "measure (\<lambda>(binaryString, i, bytes). length binaryString - i)") auto

declare decodeAudio_loop.simps [simp del]

definition decodeAudio :: "js_string \<Rightarrow> js_error + byte list" where
  "decodeAudio base64 =
     (case atob base64 of
        Inl e \<Rightarrow> Inl e
      | Inr binaryString \<Rightarrow>
          Inr (decodeAudio_loop binaryString 0 (replicate (length binaryString) 0)))"

section \<open>Samples (utils/audioUtils.ts)\<close>

text \<open>
  An element of a \<^verbatim>\<open>Float32Array\<close> is a finite number or \<open>NaN\<close>; a finite number is the
  real it denotes, and the infinities are not modelled. The operations of
  \<^verbatim>\<open>createPcmBlob\<close> and \<^verbatim>\<open>decodeAudioData\<close> are exact on 32-bit floats (a product with a
  16-bit constant, a truncation, a division by a power of two), so they are written
  without rounding. The resampler's operations do round; they are modelled with the
  rounding of the section on double-precision arithmetic below. \<open>NaN\<close> is also what an
  out-of-range read (\<^verbatim>\<open>undefined\<close>) becomes in arithmetic.
\<close>

datatype sample = Num real | NaN

definition math_min :: "real \<Rightarrow> sample \<Rightarrow> sample" where
  "math_min a x = (case x of NaN \<Rightarrow> NaN | Num v \<Rightarrow> Num (min a v))"

definition math_max :: "real \<Rightarrow> sample \<Rightarrow> sample" where
  "math_max a x = (case x of NaN \<Rightarrow> NaN | Num v \<Rightarrow> Num (max a v))"

text \<open>\<^verbatim>\<open>x < 0\<close> is false for \<open>NaN\<close>; a product or a sum with \<open>NaN\<close> is \<open>NaN\<close>.\<close>

definition negative :: "sample \<Rightarrow> bool" where
  "negative x = (case x of NaN \<Rightarrow> False | Num v \<Rightarrow> v < 0)"

definition times_sample :: "sample \<Rightarrow> real \<Rightarrow> sample" where
  "times_sample x k = (case x of NaN \<Rightarrow> NaN | Num v \<Rightarrow> Num (v * k))"

definition plus_sample :: "sample \<Rightarrow> sample \<Rightarrow> sample" where
  "plus_sample x y =
     (case x of NaN \<Rightarrow> NaN | Num v \<Rightarrow> (case y of NaN \<Rightarrow> NaN | Num w \<Rightarrow> Num (v + w)))"

text \<open>\<^verbatim>\<open>buffer[k]\<close> of a typed array: \<^verbatim>\<open>undefined\<close> out of range, \<open>NaN\<close> in arithmetic.\<close>

definition sample_at :: "sample list \<Rightarrow> int \<Rightarrow> sample" where
  "sample_at buffer k = (if 0 \<le> k \<and> k < int (length buffer) then buffer ! nat k else NaN)"

text \<open>
  A store into an \<^verbatim>\<open>Int16Array\<close> applies ToInt16: \<open>NaN\<close> becomes 0, a finite number is
  truncated towards zero and reduced modulo \<open>2 ^ 16\<close>.
\<close>

definition to_int16 :: "sample \<Rightarrow> 16 word" where
  "to_int16 x =
     (case x of NaN \<Rightarrow> 0 | Num v \<Rightarrow> word_of_int (if v < 0 then \<lceil>v\<rceil> else \<lfloor>v\<rfloor>))"

text \<open>
  The bytes of a 16-bit sample as a \<^verbatim>\<open>Uint8Array\<close> over the same buffer sees them, and
  back (\<^verbatim>\<open>new Int16Array(data.buffer)\<close>): little-endian, as on every platform that runs
  a browser.
\<close>

definition int16_bytes :: "16 word \<Rightarrow> byte list" where
  "int16_bytes w = [ucast w, ucast (drop_bit 8 w)]"

definition bytes_int16 :: "byte \<Rightarrow> byte \<Rightarrow> 16 word" where
  "bytes_int16 lo hi = push_bit 8 (ucast hi) OR ucast lo"

fun int16_view :: "byte list \<Rightarrow> 16 word list" where
  "int16_view (lo # hi # rest) = bytes_int16 lo hi # int16_view rest"
| "int16_view _ = []"

section \<open>PCM frame builder: \<^verbatim>\<open>createPcmBlob\<close>\<close>

record pcm_blob =
  blob_data :: js_string
  blob_mimeType :: string

text \<open>The body of the loop: the 16-bit value stored for one input sample.\<close>

definition pcm16 :: "sample \<Rightarrow> 16 word" where
  "pcm16 x =
     (let s = math_max (- 1) (math_min 1 x)
      in to_int16 (if negative s then times_sample s 0x8000 else times_sample s 0x7FFF))"

function createPcmBlob_loop :: "sample list \<Rightarrow> nat \<Rightarrow> nat \<Rightarrow> 16 word list \<Rightarrow> 16 word list" where
  "createPcmBlob_loop data l i int16 =
     (if i < l
      then createPcmBlob_loop data l (i + 1) (int16[i := pcm16 (sample_at data (int i))])
      else int16)"
  by pat_completeness auto
termination
  by (relation "measure (\<lambda>(data, l, i, int16). l - i)") auto

declare createPcmBlob_loop.simps [simp del]

definition createPcmBlob :: "sample list \<Rightarrow> js_error + pcm_blob" where
  "createPcmBlob data =
     (let l = length data;
          int16 = createPcmBlob_loop data l 0 (replicate l 0)
      in case encodeAudio (concat (map int16_bytes int16)) of
           Inl e \<Rightarrow> Inl e
         | Inr text \<Rightarrow> Inr \<lparr>blob_data = text, blob_mimeType = ''audio/pcm;rate=16000''\<rparr>)"

section \<open>Inbound PCM decoding: \<^verbatim>\<open>decodeAudioData\<close>\<close>

record audio_buffer =
  buf_sampleRate :: real
  buf_length :: nat
  buf_channels :: "sample list list"

text \<open>
  \<^verbatim>\<open>ctx.createBuffer(numberOfChannels, length, sampleRate)\<close> is the host's. The length is an
  \<^verbatim>\<open>unsigned long\<close>: a fractional argument is truncated. \<open>NotSupportedError\<close> is thrown
  when an argument is zero or outside its nominal range (at most 32 channels, a rate
  between 8000 and 96000 are what every implementation accepts). The buffer starts
  zeroed.
\<close>

definition createBuffer :: "nat \<Rightarrow> real \<Rightarrow> real \<Rightarrow> js_error + audio_buffer" where
  "createBuffer numChannels frameCount sampleRate =
     (let len = nat \<lfloor>frameCount\<rfloor> in
      if numChannels = 0 \<or> 32 < numChannels \<or> len = 0 \<or> sampleRate < 8000 \<or> 96000 < sampleRate
      then Inl NotSupportedError
      else Inr \<lparr>buf_sampleRate = sampleRate, buf_length = len,
                buf_channels = replicate numChannels (replicate len (Num 0))\<rparr>)"

text \<open>\<^verbatim>\<open>dataInt16[k] / 32768.0\<close>: \<open>NaN\<close> when \<open>k\<close> is out of range.\<close>

definition int16_div :: "16 word list \<Rightarrow> nat \<Rightarrow> sample" where
  "int16_div dataInt16 k =
     (if k < length dataInt16 then Num (real_of_int (sint (dataInt16 ! k)) / 32768) else NaN)"

text \<open>
  The inner loop runs while \<open>i < frameCount\<close>, a comparison of numbers: \<open>frameCount\<close> is
  the quotient itself, not the buffer's length. A store past the end of the channel's
  array is ignored, as \<open>list_update\<close> does.
\<close>

lemma less_nat_ceiling: "real i < f \<Longrightarrow> i < nat \<lceil>f\<rceil>"
  by linarith

function channel_loop ::
  "16 word list \<Rightarrow> nat \<Rightarrow> real \<Rightarrow> nat \<Rightarrow> nat \<Rightarrow> sample list \<Rightarrow> sample list" where
  "channel_loop dataInt16 numChannels frameCount channel i channelData =
     (if real i < frameCount
      then channel_loop dataInt16 numChannels frameCount channel (i + 1)
             (channelData[i := int16_div dataInt16 (i * numChannels + channel)])
      else channelData)"
  by pat_completeness auto
termination
  by (relation "measure (\<lambda>(d, c, frameCount, ch, i, cd). nat \<lceil>frameCount\<rceil> - i)")
     (auto intro!: diff_less_mono2 less_nat_ceiling)

declare channel_loop.simps [simp del]

function channels_loop ::
  "16 word list \<Rightarrow> nat \<Rightarrow> real \<Rightarrow> nat \<Rightarrow> sample list list \<Rightarrow> sample list list" where
  "channels_loop dataInt16 numChannels frameCount channel chans =
     (if channel < numChannels
      then channels_loop dataInt16 numChannels frameCount (channel + 1)
             (chans[channel :=
                channel_loop dataInt16 numChannels frameCount channel 0 (chans ! channel)])
      else chans)"
  by pat_completeness auto
termination
  by (relation "measure (\<lambda>(d, numChannels, f, channel, chans). numChannels - channel)") auto

declare channels_loop.simps [simp del]

text \<open>
  \<^verbatim>\<open>new Int16Array(data.buffer)\<close> throws \<open>RangeError\<close> when the byte length is odd; \<open>data\<close>
  spans its whole buffer, as the array that \<^verbatim>\<open>decodeAudio\<close> returns does. The division by
  \<open>numChannels\<close> is a division of numbers; with no channel the quotient is infinite or
  \<open>NaN\<close> and \<^verbatim>\<open>createBuffer\<close> refuses the channel count.
\<close>

definition decodeAudioData :: "byte list \<Rightarrow> real \<Rightarrow> nat \<Rightarrow> js_error + audio_buffer" where
  "decodeAudioData data sampleRate numChannels =
     (if odd (length data) then Inl RangeError
      else if numChannels = 0 then Inl NotSupportedError
      else
        let dataInt16 = int16_view data;
            frameCount = real (length dataInt16) / real numChannels
        in case createBuffer numChannels frameCount sampleRate of
             Inl e \<Rightarrow> Inl e
           | Inr buffer \<Rightarrow>
               Inr (buffer\<lparr>buf_channels :=
                      channels_loop dataInt16 numChannels frameCount 0 (buf_channels buffer)\<rparr>))"

section \<open>Outbound encoding followed by inbound decoding\<close>

text \<open>
  \<^verbatim>\<open>fromPcm16(toPcm16([f]))[0]\<close>: one sample through \<^verbatim>\<open>createPcmBlob\<close>, then the blob's
  text through \<^verbatim>\<open>decodeAudio\<close> and \<^verbatim>\<open>decodeAudioData\<close> with one channel, then the first
  sample of channel 0.
\<close>

definition pcm16_roundtrip :: "sample \<Rightarrow> js_error + sample" where
  "pcm16_roundtrip f =
     (case createPcmBlob [f] of
        Inl e \<Rightarrow> Inl e
      | Inr blob \<Rightarrow>
          (case decodeAudio (blob_data blob) of
             Inl e \<Rightarrow> Inl e
           | Inr bytes \<Rightarrow>
               (case decodeAudioData bytes 24000 1 of
                  Inl e \<Rightarrow> Inl e
                | Inr buffer \<Rightarrow> Inr (sample_at (buf_channels buffer ! 0) 0))))"

section \<open>Double-precision arithmetic\<close>

text \<open>
  A JavaScript number is an IEEE 754 binary64 value, and an arithmetic operation returns
  its exact result rounded to the nearest representable number, a tie going to the even
  significand. \<open>round_to p emin\<close> rounds a real to \<open>p\<close> significant bits with least exponent
  \<open>emin\<close>, gradual underflow included. Overflow to an infinity is not represented: a result
  of magnitude \<open>2 ^ 1024\<close> or more stands for the infinity, and the one place below where
  it can arise refuses it as the program does.
\<close>

definition pow2 :: "int \<Rightarrow> real" where
  "pow2 e = (if 0 \<le> e then 2 ^ nat e else 1 / 2 ^ nat (- e))"

text \<open>
  The binary exponent of a non-zero number: \<open>pow2 (exponent x) \<le> \<bar>x\<bar> < pow2 (exponent x + 1)\<close>.
  It is found by halving a number that is at least 2 and doubling one below 1.
\<close>

lemma floor_half_less: "2 \<le> x \<Longrightarrow> nat \<lfloor>x / 2\<rfloor> < nat \<lfloor>x\<rfloor>" for x :: real
proof -
  assume x: "2 \<le> x"
  have "real_of_int \<lfloor>x / 2\<rfloor> \<le> x / 2" by (rule of_int_floor_le)
  moreover have "x - 1 < \<lfloor>x\<rfloor>" by linarith
  moreover have "x / 2 \<le> x - 1" using x by simp
  ultimately have "real_of_int \<lfloor>x / 2\<rfloor> < real_of_int \<lfloor>x\<rfloor>" by linarith
  then have "\<lfloor>x / 2\<rfloor> < \<lfloor>x\<rfloor>" by simp
  moreover have "0 < \<lfloor>x\<rfloor>" using x by linarith
  ultimately show ?thesis by simp
qed

lemma ceiling_half_less:
  "0 < x \<Longrightarrow> x < 1 \<Longrightarrow> nat \<lceil>1 / (2 * x)\<rceil> < nat \<lceil>1 / x\<rceil>" for x :: real
proof -
  assume x: "0 < x" "x < 1"
  define y where "y = 1 / x"
  have y: "1 < y" using x by (simp add: y_def)
  have half: "1 / (2 * x) = y / 2" by (simp add: y_def)
  have "real_of_int \<lceil>y / 2\<rceil> < y / 2 + 1" by linarith
  moreover have "y \<le> real_of_int \<lceil>y\<rceil>" by linarith
  moreover have "2 \<le> \<lceil>y\<rceil>" using y by linarith
  then have "2 \<le> real_of_int \<lceil>y\<rceil>" by linarith
  ultimately have "real_of_int \<lceil>y / 2\<rceil> < real_of_int \<lceil>y\<rceil> / 2 + 1" by linarith
  then have "real_of_int \<lceil>y / 2\<rceil> < real_of_int \<lceil>y\<rceil> + 1 / 2 - (real_of_int \<lceil>y\<rceil> / 2 - 1 / 2)"
    by simp
  moreover have "(real_of_int \<lceil>y\<rceil> / 2 - 1 / 2) \<ge> 1 / 2"
    using \<open>2 \<le> real_of_int \<lceil>y\<rceil>\<close> by simp
  ultimately have "real_of_int \<lceil>y / 2\<rceil> < real_of_int \<lceil>y\<rceil>" by linarith
  then have "\<lceil>y / 2\<rceil> < \<lceil>y\<rceil>" by simp
  moreover have "0 < \<lceil>y\<rceil>" using y by linarith
  ultimately show ?thesis unfolding half y_def [symmetric] by simp
qed

function exp_up :: "real \<Rightarrow> int" where
  "exp_up x = (if 2 \<le> x then exp_up (x / 2) + 1 else 0)"
  by pat_completeness auto
termination
proof (relation "measure (\<lambda>x. nat \<lfloor>x\<rfloor>)")
  show "wf (measure (\<lambda>x :: real. nat \<lfloor>x\<rfloor>))"
    by simp
  show "(x / 2, x) \<in> measure (\<lambda>x. nat \<lfloor>x\<rfloor>)" if "2 \<le> x" for x :: real
    using floor_half_less [OF that] by (simp only: in_measure)
qed

declare exp_up.simps [simp del]

function exp_down :: "real \<Rightarrow> int" where
  "exp_down x = (if 0 < x \<and> x < 1 then exp_down (2 * x) - 1 else 0)"
  by pat_completeness auto
termination
proof (relation "measure (\<lambda>x. nat \<lceil>1 / x\<rceil>)")
  show "wf (measure (\<lambda>x :: real. nat \<lceil>1 / x\<rceil>))"
    by simp
  show "(2 * x, x) \<in> measure (\<lambda>x. nat \<lceil>1 / x\<rceil>)" if "0 < x \<and> x < 1" for x :: real
    using ceiling_half_less [of x] that by (simp only: in_measure)
qed

declare exp_down.simps [simp del]

definition exponent :: "real \<Rightarrow> int" where
  "exponent x = (if 1 \<le> \<bar>x\<bar> then exp_up \<bar>x\<bar> else exp_down \<bar>x\<bar>)"

text \<open>The nearest integer, a tie going to the even one.\<close>

definition rne :: "real \<Rightarrow> int" where
  "rne y =
     (let f = \<lfloor>y\<rfloor>; d = y - real_of_int f
      in if d < 1 / 2 then f
         else if 1 / 2 < d then f + 1
         else if even f then f else f + 1)"

definition round_to :: "nat \<Rightarrow> int \<Rightarrow> real \<Rightarrow> real" where
  "round_to p emin x =
     (if x = 0 then 0
      else let u = pow2 (max (exponent x) emin - int p + 1)
           in real_of_int (rne (x / u)) * u)"

text \<open>Rounding to binary64 (a number) and to binary32 (a store into a \<^verbatim>\<open>Float32Array\<close>).\<close>

definition fl64 :: "real \<Rightarrow> real" where
  "fl64 x = round_to 53 (- 1022) x"

definition fl32 :: "real \<Rightarrow> real" where
  "fl32 x = round_to 24 (- 126) x"

text \<open>A product and a sum of numbers, rounded; \<open>NaN\<close> propagates.\<close>

definition times_double :: "sample \<Rightarrow> real \<Rightarrow> sample" where
  "times_double x k = (case x of NaN \<Rightarrow> NaN | Num v \<Rightarrow> Num (fl64 (v * k)))"

definition plus_double :: "sample \<Rightarrow> sample \<Rightarrow> sample" where
  "plus_double x y =
     (case x of NaN \<Rightarrow> NaN | Num v \<Rightarrow> (case y of NaN \<Rightarrow> NaN | Num w \<Rightarrow> Num (fl64 (v + w))))"

definition to_float32 :: "sample \<Rightarrow> sample" where
  "to_float32 x = (case x of NaN \<Rightarrow> NaN | Num v \<Rightarrow> Num (fl32 v))"

section \<open>Resampler: \<^verbatim>\<open>downsampleTo16k\<close>\<close>

text \<open>\<^verbatim>\<open>Math.round\<close>: the nearest integer, a tie going up. It is exact on a number.\<close>

definition math_round :: "real \<Rightarrow> int" where
  "math_round x = \<lfloor>x + 1 / 2\<rfloor>"

text \<open>
  The fractional source position of output index \<open>i\<close>, a rounded product, and the two
  source positions read for it.
\<close>

definition originalIndex :: "real \<Rightarrow> nat \<Rightarrow> real" where
  "originalIndex ratio i = fl64 (real i * ratio)"

definition index1 :: "real \<Rightarrow> nat \<Rightarrow> int" where
  "index1 ratio i = \<lfloor>originalIndex ratio i\<rfloor>"

definition index2 :: "sample list \<Rightarrow> real \<Rightarrow> nat \<Rightarrow> int" where
  "index2 buffer ratio i = min \<lceil>originalIndex ratio i\<rceil> (int (length buffer) - 1)"

definition weight :: "real \<Rightarrow> nat \<Rightarrow> real" where
  "weight ratio i = fl64 (originalIndex ratio i - real_of_int (index1 ratio i))"

text \<open>The body of the loop: the element stored at output index \<open>i\<close>.\<close>

definition interpolate :: "sample list \<Rightarrow> real \<Rightarrow> nat \<Rightarrow> sample" where
  "interpolate buffer ratio i =
     to_float32
       (plus_double
          (times_double (sample_at buffer (index1 ratio i)) (fl64 (1 - weight ratio i)))
          (times_double (sample_at buffer (index2 buffer ratio i)) (weight ratio i)))"

function downsample_loop ::
  "sample list \<Rightarrow> real \<Rightarrow> nat \<Rightarrow> nat \<Rightarrow> sample list \<Rightarrow> sample list" where
  "downsample_loop buffer ratio newLength i result =
     (if i < newLength
      then downsample_loop buffer ratio newLength (i + 1)
             (result[i := interpolate buffer ratio i])
      else result)"
  by pat_completeness auto
termination
  by (relation "measure (\<lambda>(buffer, ratio, newLength, i, result). newLength - i)") auto

declare downsample_loop.simps [simp del]

text \<open>
  Both divisions round. \<^verbatim>\<open>new Float32Array(newLength)\<close> throws \<open>RangeError\<close> for a negative
  length and for one above \<open>2 ^ 53 - 1\<close>, an infinite one included. When the ratio is 0
  (a rate of 0, or one so small that the quotient underflows) \<^verbatim>\<open>buffer.length / ratio\<close> is
  \<open>NaN\<close> for an empty buffer, which gives length 0, and infinite otherwise.
\<close>

definition downsampleTo16k :: "sample list \<Rightarrow> real \<Rightarrow> js_error + sample list" where
  "downsampleTo16k buffer inputRate =
     (if inputRate = 16000 then Inr buffer
      else
        let ratio = fl64 (inputRate / 16000)
        in if ratio = 0 then (if buffer = [] then Inr [] else Inl RangeError)
           else
             let newLength = math_round (fl64 (real (length buffer) / ratio))
             in if newLength < 0 \<or> 2 ^ 53 - 1 < newLength then Inl RangeError
                else Inr (downsample_loop buffer ratio (nat newLength) 0
                            (replicate (nat newLength) (Num 0))))"

section \<open>Capture callback (the App component, in components/ScreenStream.tsx)\<close>



section \<open>Playback scheduler and ducking controller (the App component)\<close>

subsection \<open>Host objects\<close>

text \<open>
  The timeline of an \<^verbatim>\<open>AudioParam\<close>: the value assigned through \<^verbatim>\<open>.value\<close> and the scheduled
  automation events, ordered by time. Each event has a value and a time.
\<close>

datatype automation_event = SetValueAtTime real real | LinearRampToValueAtTime real real

fun event_value :: "automation_event \<Rightarrow> real" where
  "event_value (SetValueAtTime v t) = v"
| "event_value (LinearRampToValueAtTime v t) = v"

fun event_time :: "automation_event \<Rightarrow> real" where
  "event_time (SetValueAtTime v t) = t"
| "event_time (LinearRampToValueAtTime v t) = t"

fun same_type :: "automation_event \<Rightarrow> automation_event \<Rightarrow> bool" where
  "same_type (SetValueAtTime v t) (SetValueAtTime w u) = True"
| "same_type (LinearRampToValueAtTime v t) (LinearRampToValueAtTime w u) = True"
| "same_type _ _ = False"

record audio_param =
  param_default :: real
  param_events :: "automation_event list"

text \<open>\<^verbatim>\<open>cancelScheduledValues(t)\<close> removes every event at time \<open>t\<close> or later.\<close>

definition cancelScheduledValues :: "real \<Rightarrow> audio_param \<Rightarrow> audio_param" where
  "cancelScheduledValues t p =
     p\<lparr>param_events := filter (\<lambda>e. event_time e < t) (param_events p)\<rparr>"

text \<open>
  A new event replaces an event of the same type at the same time; otherwise it is placed
  after the events at its time or earlier and before the later ones.
\<close>

definition insert_event :: "automation_event \<Rightarrow> automation_event list \<Rightarrow> automation_event list" where
  "insert_event e evs =
     (let rest = filter (\<lambda>x. \<not> (same_type x e \<and> event_time x = event_time e)) evs
      in takeWhile (\<lambda>x. event_time x \<le> event_time e) rest @ [e] @
         dropWhile (\<lambda>x. event_time x \<le> event_time e) rest)"

definition setValueAtTime :: "real \<Rightarrow> real \<Rightarrow> audio_param \<Rightarrow> audio_param" where
  "setValueAtTime v t p = p\<lparr>param_events := insert_event (SetValueAtTime v t) (param_events p)\<rparr>"

definition linearRampToValueAtTime :: "real \<Rightarrow> real \<Rightarrow> audio_param \<Rightarrow> audio_param" where
  "linearRampToValueAtTime v t p =
     p\<lparr>param_events := insert_event (LinearRampToValueAtTime v t) (param_events p)\<rparr>"

text \<open>
  The value the timeline ends at: the value of its last event, or the assigned value when
  nothing is scheduled.
\<close>

definition param_target :: "audio_param \<Rightarrow> real" where
  "param_target p =
     (if param_events p = [] then param_default p else event_value (last (param_events p)))"

text \<open>
  An \<^verbatim>\<open>AudioBufferSourceNode\<close>: the duration of its buffer, whether \<^verbatim>\<open>start(when)\<close> was called
  and with which time, and whether \<^verbatim>\<open>stop()\<close> was called. A node is named by its position
  in the list of all nodes created so far.
\<close>

record source_node =
  node_duration :: real
  node_started :: bool
  node_when :: real
  node_stopped :: bool

text \<open>\<^verbatim>\<open>AudioBuffer.duration\<close>: the length divided by the sample rate.\<close>

definition duration :: "audio_buffer \<Rightarrow> real" where
  "duration b = real (buf_length b) / buf_sampleRate b"

text \<open>
  \<^verbatim>\<open>try { s.stop(); } catch(e) {}\<close>: \<^verbatim>\<open>stop\<close> throws on a node that was never started, and
  the exception is swallowed.
\<close>

definition stop :: "source_node \<Rightarrow> source_node" where
  "stop n = (if node_started n then n\<lparr>node_stopped := True\<rparr> else n)"

text \<open>
  What a callback reads from the host when it runs: the current times of the two audio
  contexts and the current value of the secondary-source gain.
\<close>

record clock =
  outCtx_currentTime :: real
  inputCtx_currentTime :: real
  systemGain_value :: real

subsection \<open>State and callbacks\<close>

text \<open>
  The refs of the component that the audio callbacks use. \<open>audioSourcesRef\<close> is a
  \<^verbatim>\<open>Set\<close>: a list without repetition, in insertion order. \<open>audioContextRef\<close> records whether
  the ref is non-null.
\<close>

record pipeline =
  nextStartTimeRef :: real
  audioSourcesRef :: "nat list"
  systemGainRef :: "audio_param option"
  audioContextRef :: bool
  isModelSpeaking :: bool
  nodes :: "source_node list"

text \<open>
  The part of a \<^verbatim>\<open>LiveServerMessage\<close> the audio path reads:
  \<^verbatim>\<open>serverContent.interrupted\<close> and \<^verbatim>\<open>serverContent.modelTurn.parts[0].inlineData.data\<close>.
  Tool calls and transcriptions do not touch the state above and are left out.
\<close>

record server_message =
  interrupted :: bool
  inlineData :: "js_string option"

definition set_add :: "nat \<Rightarrow> nat list \<Rightarrow> nat list" where
  "set_add x xs = (if x \<in> set xs then xs else xs @ [x])"

definition set_delete :: "nat \<Rightarrow> nat list \<Rightarrow> nat list" where
  "set_delete x xs = removeAll x xs"

text \<open>\<^verbatim>\<open>audioSourcesRef.current.forEach(s => { try { s.stop(); } catch(e) {} })\<close>\<close>

fun stop_each :: "nat list \<Rightarrow> source_node list \<Rightarrow> source_node list" where
  "stop_each [] ns = ns"
| "stop_each (s # ss) ns = stop_each ss (ns[s := stop (ns ! s)])"

text \<open>The branch of \<^verbatim>\<open>onmessage\<close> for \<^verbatim>\<open>message.serverContent?.interrupted\<close>.\<close>

definition on_interrupted :: "clock \<Rightarrow> pipeline \<Rightarrow> pipeline" where
  "on_interrupted c s =
     (let s1 = s\<lparr>nodes := stop_each (audioSourcesRef s) (nodes s)\<rparr>;
          s2 = s1\<lparr>audioSourcesRef := []\<rparr>;
          s3 = s2\<lparr>nextStartTimeRef := 0\<rparr>;
          s4 = s3\<lparr>isModelSpeaking := False\<rparr>
      in case systemGainRef s4 of
           None \<Rightarrow> s4
         | Some gain \<Rightarrow>
             if audioContextRef s4
             then s4\<lparr>systemGainRef :=
                    Some (setValueAtTime (7 / 10) (inputCtx_currentTime c)
                           (cancelScheduledValues (inputCtx_currentTime c) gain))\<rparr>
             else s4)"

text \<open>
  The branch for inbound audio. An exception of \<^verbatim>\<open>decodeAudio\<close> or \<^verbatim>\<open>decodeAudioData\<close>
  leaves the callback after the cursor was adjusted: the result carries the exception and
  the state reached.
\<close>

definition on_audio :: "clock \<Rightarrow> js_string \<Rightarrow> pipeline \<Rightarrow> js_error option \<times> pipeline" where
  "on_audio c audioBase64 s =
     (let s1 = (if nextStartTimeRef s < outCtx_currentTime c
                then s\<lparr>nextStartTimeRef := outCtx_currentTime c + 5 / 100\<rparr> else s)
      in case decodeAudio audioBase64 of
           Inl e \<Rightarrow> (Some e, s1)
         | Inr audioData \<Rightarrow>
             (case decodeAudioData audioData 24000 1 of
                Inl e \<Rightarrow> (Some e, s1)
              | Inr audioBuffer \<Rightarrow>
                  let source = length (nodes s1);
                      s2 = s1\<lparr>nodes := nodes s1 @
                             [\<lparr>node_duration = duration audioBuffer, node_started = False,
                               node_when = 0, node_stopped = False\<rparr>]\<rparr>;
                      s3 = (case systemGainRef s2 of
                              None \<Rightarrow> s2
                            | Some gain \<Rightarrow>
                                s2\<lparr>systemGainRef :=
                                  Some (linearRampToValueAtTime 0 (inputCtx_currentTime c + 5 / 100)
                                         (setValueAtTime (systemGain_value c) (inputCtx_currentTime c)
                                           (cancelScheduledValues (inputCtx_currentTime c) gain)))\<rparr>);
                      s4 = s3\<lparr>nodes := (nodes s3)[source :=
                             (nodes s3 ! source)\<lparr>node_started := True,
                                                  node_when := nextStartTimeRef s3\<rparr>]\<rparr>;
                      s5 = s4\<lparr>isModelSpeaking := True\<rparr>;
                      s6 = s5\<lparr>nextStartTimeRef := nextStartTimeRef s5 + duration audioBuffer\<rparr>
                  in (None, s6\<lparr>audioSourcesRef := set_add source (audioSourcesRef s6)\<rparr>)))"

definition onmessage :: "clock \<Rightarrow> server_message \<Rightarrow> pipeline \<Rightarrow> js_error option \<times> pipeline" where
  "onmessage c message s =
     (if interrupted message then (None, on_interrupted c s)
      else case inlineData message of
             None \<Rightarrow> (None, s)
           | Some audioBase64 \<Rightarrow>
               if audioBase64 \<noteq> [] \<and> audioContextRef s then on_audio c audioBase64 s
               else (None, s))"

text \<open>The \<^verbatim>\<open>ended\<close> listener that \<^verbatim>\<open>onmessage\<close> attaches to \<open>source\<close>.\<close>

definition on_ended :: "clock \<Rightarrow> nat \<Rightarrow> pipeline \<Rightarrow> pipeline" where
  "on_ended c source s =
     (let s1 = s\<lparr>audioSourcesRef := set_delete source (audioSourcesRef s)\<rparr>
      in if length (audioSourcesRef s1) = 0
         then
           let s2 = s1\<lparr>isModelSpeaking := False\<rparr>
           in case systemGainRef s2 of
                None \<Rightarrow> s2
              | Some gain \<Rightarrow>
                  s2\<lparr>systemGainRef :=
                    Some (linearRampToValueAtTime (7 / 10) (inputCtx_currentTime c + 2 / 10)
                           (setValueAtTime 0 (inputCtx_currentTime c)
                             (cancelScheduledValues (inputCtx_currentTime c) gain)))\<rparr>
         else s1)"

subsection \<open>Runs\<close>

text \<open>
  The callbacks run one at a time, each to its end: the only \<^verbatim>\<open>await\<close> on the audio path is
  on \<^verbatim>\<open>decodeAudioData\<close>, which has nothing to wait for. A run of the pipeline is the list
  of callbacks the host fired, each with what it read from the host.
\<close>

datatype event = Message clock server_message | Ended clock nat

fun step :: "pipeline \<Rightarrow> event \<Rightarrow> pipeline" where
  "step s (Message c message) = snd (onmessage c message s)"
| "step s (Ended c source) = on_ended c source s"

definition run :: "event list \<Rightarrow> pipeline \<Rightarrow> pipeline" where
  "run evs s = foldl step s evs"

text \<open>
  The state \<^verbatim>\<open>startSession\<close> leaves: both contexts exist, the secondary-source gain is a
  new node with value 0.7 and nothing scheduled, nothing is playing. The cursor is not
  reset by \<^verbatim>\<open>startSession\<close>: it starts at 0 and keeps its value from an earlier session.
\<close>

definition session_start :: "real \<Rightarrow> pipeline" where
  "session_start cursor =
     \<lparr>nextStartTimeRef = cursor, audioSourcesRef = [],
      systemGainRef = Some \<lparr>param_default = 7 / 10, param_events = []\<rparr>,
      audioContextRef = True, isModelSpeaking = False, nodes = []\<rparr>"

fun is_interruption :: "event \<Rightarrow> bool" where
  "is_interruption (Message c message) = interrupted message"
| "is_interruption (Ended c source) = False"

subsection \<open>Invariants used in the proofs\<close>

text \<open>
  \<open>pipeline_inv\<close>: the contexts and the gain exist, the gain's timeline ends at 0 while
  something is playing and at 0.7 otherwise, and every member of the playback set is a
  node that was created and started. \<open>cursor_follows n t\<close>: the time \<open>t\<close> is the end of node
  \<open>n\<close>, or more than the look-ahead after it. \<open>schedule_inv n0\<close>: from node \<open>n0\<close> on, each
  node starts where \<open>cursor_follows\<close> allows after its predecessor, and so does the cursor
  after the last node. \<open>cursor_after\<close> is the cursor once \<^verbatim>\<open>onmessage\<close> has compared it with
  the output context's time.
\<close>

definition pipeline_inv :: "pipeline \<Rightarrow> bool" where
  "pipeline_inv s =
     (audioContextRef s \<and>
      (case systemGainRef s of
         None \<Rightarrow> False
       | Some gain \<Rightarrow> param_target gain = (if audioSourcesRef s = [] then 7 / 10 else 0)) \<and>
      list_all (\<lambda>k. k < length (nodes s) \<and> node_started (nodes s ! k)) (audioSourcesRef s))"

definition cursor_follows :: "source_node \<Rightarrow> real \<Rightarrow> bool" where
  "cursor_follows n t =
     (t = node_when n + node_duration n \<or> node_when n + node_duration n + 5 / 100 < t)"

definition schedule_inv :: "nat \<Rightarrow> pipeline \<Rightarrow> bool" where
  "schedule_inv n0 s =
     (n0 \<le> length (nodes s) \<and>
      (\<forall>k. n0 \<le> k \<and> Suc k < length (nodes s) \<longrightarrow>
         0 \<le> node_duration (nodes s ! k) \<and>
         cursor_follows (nodes s ! k) (node_when (nodes s ! Suc k))) \<and>
      (n0 < length (nodes s) \<longrightarrow>
         0 \<le> node_duration (last (nodes s)) \<and>
         cursor_follows (last (nodes s)) (nextStartTimeRef s)))"

definition cursor_after :: "clock \<Rightarrow> pipeline \<Rightarrow> real" where
  "cursor_after c s =
     (if nextStartTimeRef s < outCtx_currentTime c then outCtx_currentTime c + 5 / 100
      else nextStartTimeRef s)"

section \<open>Properties of the codec\<close>

lemma encodeAudio_loop_drop:
  "encodeAudio_loop bytes i binary = binary @ fromCharCode (drop i bytes)"
proof (induction bytes i binary rule: encodeAudio_loop.induct)
  case (1 bytes i binary)
  show ?case
  proof (cases "i < length bytes")
    case True
    have "take chunkSize (drop i bytes) @ drop (i + chunkSize) bytes = drop i bytes"
      by (metis add.commute append_take_drop_id drop_drop)
    then have "fromCharCode (subarray bytes i (i + chunkSize)) @ fromCharCode (drop (i + chunkSize) bytes)
        = fromCharCode (drop i bytes)"
      by (simp add: fromCharCode_def subarray_def flip: map_append)
    with True 1 show ?thesis
      by (subst encodeAudio_loop.simps) simp
  next
    case False
    then show ?thesis
      by (subst encodeAudio_loop.simps) (simp add: fromCharCode_def)
  qed
qed

lemma pad_not_ws: "\<not> ascii_whitespace 61"
  by (simp add: ascii_whitespace_def)

lemma b64_padding_replicate: "\<exists>k\<le>2. b64_padding s = replicate k 61"
proof (induction s rule: b64_padding.induct)
  case 1
  show ?case by simp
next
  case (2 a)
  have "b64_padding [a] = replicate 2 61" by (simp add: numeral_2_eq_2)
  then show ?case by blast
next
  case (3 a b)
  have "b64_padding [a, b] = replicate 1 61" by simp
  then show ?case by (metis one_le_numeral)
next
  case (4 a b c rest)
  then show ?case by simp
qed


lemma b64_value_char: "n < 64 \<Longrightarrow> b64_value (b64_char n) = Some n"
  by (auto simp: b64_char_def b64_value_def)

lemma b64_char_not_pad: "b64_char n \<noteq> 61"
  by (auto simp: b64_char_def)

lemma b64_char_not_ws: "\<not> ascii_whitespace (b64_char n)"
  by (auto simp: b64_char_def ascii_whitespace_def)

lemma b64_sextets_last: "b64_sextets s = [] \<or> last (map b64_char (b64_sextets s)) \<noteq> 61"
  by (induction s rule: b64_sextets.induct) (simp_all add: b64_char_not_pad last_map)

lemma b64_encode_split: "b64_encode s = map b64_char (b64_sextets s) @ b64_padding s"
  by (induction s rule: b64_encode.induct) simp_all

lemma b64_encode_length: "length (b64_encode s) mod 4 = 0"
  by (induction s rule: b64_encode.induct) simp_all

lemma b64_encode_no_ws: "filter (\<lambda>c. \<not> ascii_whitespace c) (b64_encode s) = b64_encode s"
  by (induction s rule: b64_encode.induct) (simp_all add: b64_char_not_ws pad_not_ws)

lemma b64_sextets_length: "length (b64_sextets s) mod 4 \<noteq> 1"
  by (induction s rule: b64_sextets.induct) simp_all

lemma remove_padding_append:
  assumes "length (u @ replicate k 61) mod 4 = 0" "k \<le> 2" "u = [] \<or> last u \<noteq> 61"
  shows "remove_padding (u @ replicate k 61) = u"
proof -
  consider "k = 0" | "k = 1" | "k = 2" using assms(2) by linarith
  then show ?thesis
  proof cases
    case 1
    with assms show ?thesis
      by (cases u rule: rev_cases) (auto simp: remove_padding_def nth_append)
  next
    case 2
    with assms show ?thesis
      by (cases u rule: rev_cases) (auto simp: remove_padding_def nth_append)
  next
    case 3
    with assms show ?thesis
      by (auto simp: remove_padding_def nth_append numeral_2_eq_2)
  qed
qed

lemma b64_values_chars: "list_all (\<lambda>v. v < 64) vs \<Longrightarrow> b64_values (map b64_char vs) = Some vs"
  by (induction vs) (simp_all add: b64_value_char)

lemma b64_sextets_bound: "list_all (\<lambda>c. c < 256) s \<Longrightarrow> list_all (\<lambda>v. v < 64) (b64_sextets s)"
  by (induction s rule: b64_sextets.induct) auto

lemma b64_octets_sextets: "list_all (\<lambda>c. c < 256) s \<Longrightarrow> b64_octets (b64_sextets s) = s"
  by (induction s rule: b64_sextets.induct) auto

lemma remove_padding_encode: "remove_padding (b64_encode s) = map b64_char (b64_sextets s)"
proof -
  obtain k where k: "k \<le> 2" "b64_padding s = replicate k 61"
    using b64_padding_replicate by blast
  have "length (map b64_char (b64_sextets s) @ replicate k 61) mod 4 = 0"
    using b64_encode_length [of s] by (simp add: b64_encode_split k)
  moreover have "map b64_char (b64_sextets s) = [] \<or> last (map b64_char (b64_sextets s)) \<noteq> 61"
    using b64_sextets_last [of s] by simp
  ultimately show ?thesis
    using remove_padding_append [of "map b64_char (b64_sextets s)" k] k
    by (simp add: b64_encode_split)
qed

lemma atob_btoa: "list_all (\<lambda>c. c < 256) s \<Longrightarrow> \<exists>t. btoa s = Inr t \<and> atob t = Inr s"
  using b64_sextets_length [of s]
  by (simp add: btoa_def atob_def b64_encode_no_ws remove_padding_encode
      b64_values_chars b64_sextets_bound b64_octets_sextets)

lemma decodeAudio_loop_map:
  "length bytes = length binaryString \<Longrightarrow>
   decodeAudio_loop binaryString i bytes = take i bytes @ map of_nat (drop i binaryString)"
proof (induction binaryString i bytes rule: decodeAudio_loop.induct)
  case (1 binaryString i bytes)
  show ?case
  proof (cases "i < length binaryString")
    case True
    have "decodeAudio_loop binaryString i bytes =
        decodeAudio_loop binaryString (i + 1) (bytes[i := of_nat (binaryString ! i)])"
      using True by (subst decodeAudio_loop.simps) simp
    also have "\<dots> = take (i + 1) (bytes[i := of_nat (binaryString ! i)]) @
        map of_nat (drop (i + 1) binaryString)"
      using True 1 by simp
    also have "take (i + 1) (bytes[i := of_nat (binaryString ! i)]) =
        take i bytes @ [of_nat (binaryString ! i)]"
      using True 1(2) by (simp add: take_Suc_conv_app_nth)
    also have "(take i bytes @ [of_nat (binaryString ! i)]) @ map of_nat (drop (i + 1) binaryString) =
        take i bytes @ map of_nat (drop i binaryString)"
      using True by (simp add: Cons_nth_drop_Suc [symmetric])
    finally show ?thesis .
  next
    case False
    with 1(2) show ?thesis
      by (subst decodeAudio_loop.simps) simp
  qed
qed

lemma fromCharCode_bound: "list_all (\<lambda>c. c < 256) (fromCharCode B)"
proof -
  have "unat b mod 65536 < 256" for b :: byte
    using unsigned_less [of b, where ?'a = nat] by simp
  then show ?thesis
    by (simp add: fromCharCode_def list_all_iff)
qed

lemma fromCharCode_inverse: "map of_nat (fromCharCode B) = (B :: byte list)"
proof -
  have "of_nat (unat b mod 65536) = b" for b :: byte
  proof -
    have "unat b < 65536" using unsigned_less [of b, where ?'a = nat] by simp
    then show ?thesis by simp
  qed
  then show ?thesis
    by (simp add: fromCharCode_def map_idI)
qed

lemma codec_roundtrip: "\<exists>t. encodeAudio B = Inr t \<and> decodeAudio t = Inr B"
proof -
  have loop: "encodeAudio_loop B 0 [] = fromCharCode B"
    by (simp add: encodeAudio_loop_drop)
  obtain t where t: "btoa (fromCharCode B) = Inr t" "atob t = Inr (fromCharCode B)"
    using atob_btoa [OF fromCharCode_bound] by blast
  have "decodeAudio t = Inr (map of_nat (fromCharCode B))"
    by (simp add: decodeAudio_def t decodeAudio_loop_map)
  then show ?thesis
    by (simp add: encodeAudio_def loop t fromCharCode_inverse)
qed

text \<open>
  Claim C1. For every byte buffer \<open>B\<close>, of any length (the empty buffer and buffers
  longer than one 0x8000-byte chunk included), \<^verbatim>\<open>encodeAudio\<close> returns a text, and
  \<^verbatim>\<open>decodeAudio\<close> of that text returns \<open>B\<close>. The text is what \<^verbatim>\<open>btoa\<close> gives for the whole
  buffer converted in one piece: the chunks do not show.
\<close>

theorem decodeAudio_encodeAudio:
  "\<exists>t. encodeAudio B = Inr t \<and> decodeAudio t = Inr B \<and>
       encodeAudio B = btoa (fromCharCode B)"
proof -
  obtain t where "encodeAudio B = Inr t" "decodeAudio t = Inr B"
    using codec_roundtrip by blast
  moreover have "encodeAudio B = btoa (fromCharCode B)"
    by (simp add: encodeAudio_def encodeAudio_loop_drop)
  ultimately show ?thesis by blast
qed


section \<open>Properties of the PCM frame builder and decoder\<close>

lemma sint_word16_of_int:
  "- 32768 \<le> k \<Longrightarrow> k \<le> 32767 \<Longrightarrow> sint (word_of_int k :: 16 word) = k"
  by (simp add: sint_sbintrunc' signed_take_bit_int_eq_self)

lemma bytes_int16_inverse: "bytes_int16 (ucast w) (ucast (drop_bit 8 w)) = w"
  unfolding bytes_int16_def
  by (rule bit_word_eqI) (auto simp: bit_simps)

lemma int16_view_bytes: "int16_view (concat (map int16_bytes ws)) = ws"
  by (induction ws) (simp_all add: int16_bytes_def bytes_int16_inverse)

lemma length_int16_bytes: "length (concat (map int16_bytes ws)) = 2 * length ws"
  by (induction ws) (simp_all add: int16_bytes_def)

lemma length_int16_view: "length (int16_view bs) = length bs div 2"
  by (induction bs rule: int16_view.induct) simp_all

lemma createPcmBlob_loop_map:
  "length int16 = length data \<Longrightarrow>
   createPcmBlob_loop data (length data) i int16 = take i int16 @ map pcm16 (drop i data)"
proof (induction data "length data" i int16 rule: createPcmBlob_loop.induct)
  case (1 data i int16)
  show ?case
  proof (cases "i < length data")
    case True
    have "createPcmBlob_loop data (length data) i int16 =
        createPcmBlob_loop data (length data) (i + 1) (int16[i := pcm16 (sample_at data (int i))])"
      using True by (subst createPcmBlob_loop.simps) simp
    also have "\<dots> = take (i + 1) (int16[i := pcm16 (sample_at data (int i))]) @
        map pcm16 (drop (i + 1) data)"
      using True 1 by simp
    also have "take (i + 1) (int16[i := pcm16 (sample_at data (int i))]) =
        take i int16 @ [pcm16 (data ! i)]"
      using True 1(2) by (simp add: take_Suc_conv_app_nth sample_at_def)
    also have "(take i int16 @ [pcm16 (data ! i)]) @ map pcm16 (drop (i + 1) data) =
        take i int16 @ map pcm16 (drop i data)"
      using True by (simp add: Cons_nth_drop_Suc [symmetric])
    finally show ?thesis .
  next
    case False
    with 1(2) show ?thesis
      by (subst createPcmBlob_loop.simps) simp
  qed
qed

lemma createPcmBlob_eq:
  "createPcmBlob data =
     (case encodeAudio (concat (map int16_bytes (map pcm16 data))) of
        Inl e \<Rightarrow> Inl e
      | Inr text \<Rightarrow> Inr \<lparr>blob_data = text, blob_mimeType = ''audio/pcm;rate=16000''\<rparr>)"
  by (simp add: createPcmBlob_def Let_def createPcmBlob_loop_map)

text \<open>The number \<open>pcm16\<close> truncates, for a finite input.\<close>

lemma pcm16_Num:
  "pcm16 (Num x) =
     (let s = max (- 1) (min 1 x)
      in word_of_int (if s < 0 then \<lceil>s * 32768\<rceil> else \<lfloor>s * 32767\<rfloor>))"
  by (auto simp: pcm16_def math_max_def math_min_def negative_def times_sample_def to_int16_def
      Let_def mult_less_0_iff)

lemma scaled_range:
  fixes s :: real
  assumes "- 1 \<le> s" "s \<le> 1"
  shows "- 32768 \<le> (if s < 0 then \<lceil>s * 32768\<rceil> else \<lfloor>s * 32767\<rfloor>)"
    and "(if s < 0 then \<lceil>s * 32768\<rceil> else \<lfloor>s * 32767\<rfloor>) \<le> 32767"
proof -
  show "- 32768 \<le> (if s < 0 then \<lceil>s * 32768\<rceil> else \<lfloor>s * 32767\<rfloor>)"
  proof (cases "s < 0")
    case True
    have "- 32768 \<le> s * 32768" using assms by simp
    then have "- 32768 \<le> \<lceil>s * 32768\<rceil>" by linarith
    with True show ?thesis by simp
  next
    case False
    then have "0 \<le> s * 32767" by simp
    then have "0 \<le> \<lfloor>s * 32767\<rfloor>" by simp
    with False show ?thesis by simp
  qed
  show "(if s < 0 then \<lceil>s * 32768\<rceil> else \<lfloor>s * 32767\<rfloor>) \<le> 32767"
  proof (cases "s < 0")
    case True
    then have "s * 32768 \<le> 0" by simp
    then have "\<lceil>s * 32768\<rceil> \<le> 0" by (simp add: ceiling_le_iff)
    with True show ?thesis by simp
  next
    case False
    have "s * 32767 \<le> 32767" using assms by simp
    then have "\<lfloor>s * 32767\<rfloor> \<le> 32767" by linarith
    with False show ?thesis by simp
  qed
qed

lemma sint_pcm16:
  "sint (pcm16 (Num x)) =
     (let s = max (- 1) (min 1 x) in if s < 0 then \<lceil>s * 32768\<rceil> else \<lfloor>s * 32767\<rfloor>)"
proof -
  define s where "s = max (- 1) (min 1 x)"
  have "- 1 \<le> s" "s \<le> 1" by (simp_all add: s_def)
  from scaled_range [OF this] show ?thesis
    unfolding pcm16_Num Let_def s_def [symmetric]
    by (rule sint_word16_of_int)
qed

text \<open>
  Claim C7. \<^verbatim>\<open>createPcmBlob\<close> stores \<open>pcm16\<close> of every input sample. A sample is clamped
  to \<open>[-1, 1]\<close> first; a negative clamped value is scaled by 32768, any other by 32767, and
  the product is truncated. So a sample above 1 gives exactly the 16-bit value of 1, a
  sample below -1 exactly that of -1, and the truncated product always lies between
  -32768 and 32767: the 16-bit store never wraps, and 1.0 gives 32767.
\<close>

theorem createPcmBlob_clamps:
  "createPcmBlob data =
     (case encodeAudio (concat (map int16_bytes (map pcm16 data))) of
        Inl e \<Rightarrow> Inl e
      | Inr text \<Rightarrow> Inr \<lparr>blob_data = text, blob_mimeType = ''audio/pcm;rate=16000''\<rparr>) \<and>
   (1 < x \<longrightarrow> pcm16 (Num x) = pcm16 (Num 1)) \<and>
   (x < - 1 \<longrightarrow> pcm16 (Num x) = pcm16 (Num (- 1))) \<and>
   sint (pcm16 (Num x)) =
     (let s = max (- 1) (min 1 x) in if s < 0 then \<lceil>s * 32768\<rceil> else \<lfloor>s * 32767\<rfloor>) \<and>
   - 32768 \<le> (let s = max (- 1) (min 1 x) in if s < 0 then \<lceil>s * 32768\<rceil> else \<lfloor>s * 32767\<rfloor>) \<and>
   (let s = max (- 1) (min 1 x) in if s < 0 then \<lceil>s * 32768\<rceil> else \<lfloor>s * 32767\<rfloor>) \<le> 32767 \<and>
   sint (pcm16 (Num 1)) = 32767 \<and> sint (pcm16 (Num (- 1))) = - 32768"
proof (intro conjI impI)
  define s where "s = max (- 1) (min 1 x)"
  have s: "- 1 \<le> s" "s \<le> 1" by (simp_all add: s_def)
  show "createPcmBlob data =
     (case encodeAudio (concat (map int16_bytes (map pcm16 data))) of
        Inl e \<Rightarrow> Inl e
      | Inr text \<Rightarrow> Inr \<lparr>blob_data = text, blob_mimeType = ''audio/pcm;rate=16000''\<rparr>)"
    by (rule createPcmBlob_eq)
  show "pcm16 (Num x) = pcm16 (Num 1)" if "1 < x"
    using that by (simp add: pcm16_Num)
  show "pcm16 (Num x) = pcm16 (Num (- 1))" if "x < - 1"
    using that by (simp add: pcm16_Num)
  show "sint (pcm16 (Num x)) =
     (let s = max (- 1) (min 1 x) in if s < 0 then \<lceil>s * 32768\<rceil> else \<lfloor>s * 32767\<rfloor>)"
    by (rule sint_pcm16)
  show "- 32768 \<le> (let s = max (- 1) (min 1 x) in if s < 0 then \<lceil>s * 32768\<rceil> else \<lfloor>s * 32767\<rfloor>)"
    unfolding Let_def s_def [symmetric] by (rule scaled_range [OF s])
  show "(let s = max (- 1) (min 1 x) in if s < 0 then \<lceil>s * 32768\<rceil> else \<lfloor>s * 32767\<rfloor>) \<le> 32767"
    unfolding Let_def s_def [symmetric] by (rule scaled_range [OF s])
  show "sint (pcm16 (Num 1)) = 32767"
    by (simp add: sint_pcm16)
  show "sint (pcm16 (Num (- 1))) = - 32768"
    by (simp add: sint_pcm16)
qed

text \<open>The samples 2 and -3 are outside the range: they give 32767 and -32768.\<close>

theorem createPcmBlob_clamps_witness:
  "pcm16 (Num 2) = pcm16 (Num 1) \<and> pcm16 (Num (- 3)) = pcm16 (Num (- 1)) \<and>
   sint (pcm16 (Num 2)) = 32767 \<and> sint (pcm16 (Num (- 3))) = - 32768"
  using createPcmBlob_clamps [where x = 2] createPcmBlob_clamps [where x = "- 3"]
  by simp

lemma channel_loop_beyond:
  "length channelData \<le> i \<Longrightarrow>
   channel_loop dataInt16 numChannels frameCount channel i channelData = channelData"
proof (induction dataInt16 numChannels frameCount channel i channelData rule: channel_loop.induct)
  case (1 dataInt16 numChannels frameCount channel i channelData)
  show ?case
  proof (cases "real i < frameCount")
    case True
    have same: "channelData[i := int16_div dataInt16 (i * numChannels + channel)] = channelData"
      using 1(2) by (rule list_update_beyond)
    have "channel_loop dataInt16 numChannels frameCount channel (i + 1) channelData = channelData"
      using 1(1) [OF True] 1(2) by (simp add: same)
    with True show ?thesis
      by (subst channel_loop.simps) (simp add: same)
  next
    case False
    then show ?thesis
      by (subst channel_loop.simps) simp
  qed
qed

lemma channel_loop_map:
  "length channelData = nat \<lfloor>frameCount\<rfloor> \<Longrightarrow> i \<le> length channelData \<Longrightarrow>
   channel_loop dataInt16 numChannels frameCount channel i channelData =
     take i channelData @
     map (\<lambda>j. int16_div dataInt16 (j * numChannels + channel)) [i..<length channelData]"
proof (induction dataInt16 numChannels frameCount channel i channelData rule: channel_loop.induct)
  case (1 dataInt16 numChannels frameCount channel i channelData)
  let ?v = "int16_div dataInt16 (i * numChannels + channel)"
  show ?case
  proof (cases "i < length channelData")
    case True
    then have lt: "real i < frameCount"
      using 1(2) by linarith
    have "channel_loop dataInt16 numChannels frameCount channel i channelData =
        channel_loop dataInt16 numChannels frameCount channel (i + 1) (channelData[i := ?v])"
      using lt by (subst channel_loop.simps) simp
    also have "\<dots> = take (i + 1) (channelData[i := ?v]) @
        map (\<lambda>j. int16_div dataInt16 (j * numChannels + channel)) [i + 1..<length channelData]"
      using 1(1) [OF lt] 1(2) True by simp
    also have "take (i + 1) (channelData[i := ?v]) = take i channelData @ [?v]"
      using True by (simp add: take_Suc_conv_app_nth)
    also have "(take i channelData @ [?v]) @
        map (\<lambda>j. int16_div dataInt16 (j * numChannels + channel)) [i + 1..<length channelData] =
        take i channelData @
        map (\<lambda>j. int16_div dataInt16 (j * numChannels + channel)) [i..<length channelData]"
      using True by (simp add: upt_conv_Cons)
    finally show ?thesis .
  next
    case False
    with 1(3) have "i = length channelData" by simp
    then show ?thesis
      by (simp add: channel_loop_beyond)
  qed
qed

lemma channels_loop_map:
  "length chans = numChannels \<Longrightarrow> channel \<le> numChannels \<Longrightarrow>
   list_all (\<lambda>cd. length cd = nat \<lfloor>frameCount\<rfloor>) chans \<Longrightarrow>
   channels_loop dataInt16 numChannels frameCount channel chans =
     take channel chans @
     map (\<lambda>k. map (\<lambda>j. int16_div dataInt16 (j * numChannels + k)) [0..<nat \<lfloor>frameCount\<rfloor>])
       [channel..<numChannels]"
proof (induction dataInt16 numChannels frameCount channel chans rule: channels_loop.induct)
  case (1 dataInt16 numChannels frameCount channel chans)
  let ?row = "\<lambda>k. map (\<lambda>j. int16_div dataInt16 (j * numChannels + k)) [0..<nat \<lfloor>frameCount\<rfloor>]"
  show ?case
  proof (cases "channel < numChannels")
    case True
    have len: "length (chans ! channel) = nat \<lfloor>frameCount\<rfloor>"
      using True 1(2,4) by (simp add: list_all_length)
    have row: "channel_loop dataInt16 numChannels frameCount channel 0 (chans ! channel) = ?row channel"
      using channel_loop_map [of "chans ! channel" frameCount 0 dataInt16 numChannels channel] len
      by simp
    have all: "list_all (\<lambda>cd. length cd = nat \<lfloor>frameCount\<rfloor>) (chans[channel := ?row channel])"
      using 1(2,4) True by (auto simp: list_all_length nth_list_update)
    have "channels_loop dataInt16 numChannels frameCount channel chans =
        channels_loop dataInt16 numChannels frameCount (channel + 1) (chans[channel := ?row channel])"
      using True by (subst channels_loop.simps) (simp add: row)
    also have "\<dots> = take (channel + 1) (chans[channel := ?row channel]) @
        map ?row [channel + 1..<numChannels]"
      using 1(1) [OF True] True 1(2) all by (simp add: row)
    also have "take (channel + 1) (chans[channel := ?row channel]) = take channel chans @ [?row channel]"
      using True 1(2) by (simp add: take_Suc_conv_app_nth)
    also have "(take channel chans @ [?row channel]) @ map ?row [channel + 1..<numChannels] =
        take channel chans @ map ?row [channel..<numChannels]"
      using True by (simp add: upt_conv_Cons)
    finally show ?thesis .
  next
    case False
    with 1(2,3) show ?thesis
      by (subst channels_loop.simps) simp
  qed
qed

lemma decodeAudioData_eq:
  assumes "even (length data)" "0 < numChannels" "numChannels \<le> 32"
    "numChannels \<le> length data div 2" "8000 \<le> sampleRate" "sampleRate \<le> 96000"
  shows "decodeAudioData data sampleRate numChannels =
    Inr \<lparr>buf_sampleRate = sampleRate,
         buf_length = (length data div 2) div numChannels,
         buf_channels =
           map (\<lambda>k. map (\<lambda>j. int16_div (int16_view data) (j * numChannels + k))
                  [0..<(length data div 2) div numChannels])
             [0..<numChannels]\<rparr>"
proof -
  define n where "n = length data div 2"
  have fl: "nat \<lfloor>real n / real numChannels\<rfloor> = n div numChannels"
    by (simp add: floor_divide_of_nat_eq)
  have pos: "0 < n div numChannels"
    using assms(2,4) by (simp add: n_def div_greater_zero_iff)
  have cb: "createBuffer numChannels (real n / real numChannels) sampleRate =
      Inr \<lparr>buf_sampleRate = sampleRate, buf_length = n div numChannels,
           buf_channels = replicate numChannels (replicate (n div numChannels) (Num 0))\<rparr>"
    using assms pos by (simp add: createBuffer_def fl Let_def)
  have loop: "channels_loop (int16_view data) numChannels (real n / real numChannels) 0
        (replicate numChannels (replicate (n div numChannels) (Num 0))) =
      map (\<lambda>k. map (\<lambda>j. int16_div (int16_view data) (j * numChannels + k)) [0..<n div numChannels])
        [0..<numChannels]"
    using channels_loop_map [of "replicate numChannels (replicate (n div numChannels) (Num 0))"
        numChannels 0 "real n / real numChannels" "int16_view data"]
    by (simp add: fl list_all_length)
  show ?thesis
    using assms(1,2)
    by (simp add: decodeAudioData_def Let_def length_int16_view cb loop flip: n_def)
qed

lemma decodeAudioData_one_sample:
  "decodeAudioData (int16_bytes w) 24000 (Suc 0) =
     Inr \<lparr>buf_sampleRate = 24000, buf_length = 1,
          buf_channels = [[Num (real_of_int (sint w) / 32768)]]\<rparr>"
proof -
  have view: "int16_view (int16_bytes w) = [w]"
    using int16_view_bytes [of "[w]"] by simp
  have len: "length (int16_bytes w) = 2"
    by (simp add: int16_bytes_def)
  show ?thesis
    using decodeAudioData_eq [of "int16_bytes w" "Suc 0" 24000]
    by (simp add: len view int16_div_def)
qed

lemma pcm16_roundtrip_eq:
  "pcm16_roundtrip f = Inr (Num (real_of_int (sint (pcm16 f)) / 32768))"
proof -
  obtain t where t: "encodeAudio (int16_bytes (pcm16 f)) = Inr t"
      "decodeAudio t = Inr (int16_bytes (pcm16 f))"
    using codec_roundtrip by blast
  show ?thesis
    by (simp add: pcm16_roundtrip_def createPcmBlob_eq t decodeAudioData_one_sample sample_at_def)
qed

text \<open>
  Against claim C6 as stated: the sample 65535/65536 is a 32-bit float in \<open>[-1, 1]\<close>; it is
  encoded as 32766 and decoded as 32766/32768, which is 3/65536 away, more than 1/32768.
\<close>

theorem pcm16_roundtrip_counterexample:
  "pcm16_roundtrip (Num (65535 / 65536)) = Inr (Num (32766 / 32768)) \<and>
   \<not> \<bar>65535 / 65536 - 32766 / 32768\<bar> \<le> (1 / 32768 :: real)"
proof -
  have "sint (pcm16 (Num (65535 / 65536))) = 32766"
    by (simp add: sint_pcm16)
  then show ?thesis
    by (simp add: pcm16_roundtrip_eq)
qed

lemma view3: "int16_view [1, 0, 2, 0, 3, 0] = [1, 2, 3]"
  by (simp add: bytes_int16_def)

text \<open>
  Against claim C5 as stated: three 16-bit samples with two channels. The sample count is
  not a multiple of the channel count, and \<^verbatim>\<open>decodeAudioData\<close> returns a buffer of one frame
  per channel; the third sample is dropped and no error is raised.
\<close>

theorem decodeAudioData_unaligned_counterexample:
  "length (int16_view [1, 0, 2, 0, 3, 0]) = 3 \<and> \<not> 2 dvd (3 :: nat) \<and>
   decodeAudioData [1, 0, 2, 0, 3, 0] 24000 2 =
     Inr \<lparr>buf_sampleRate = 24000, buf_length = 1,
          buf_channels = [[Num (1 / 32768)], [Num (2 / 32768)]]\<rparr>"
proof -
  have len: "length [1, 0, 2, 0, 3, 0 :: byte] div 2 = 3"
    by simp
  have d: "(3 :: nat) div 2 = 1"
    by simp
  have "decodeAudioData [1, 0, 2, 0, 3, 0] 24000 2 =
     Inr \<lparr>buf_sampleRate = 24000, buf_length = 1,
          buf_channels = map (\<lambda>k. map (\<lambda>j. int16_div [1, 2, 3] (j * 2 + k)) [0..<1]) [0..<2]\<rparr>"
    using decodeAudioData_eq [of "[1, 0, 2, 0, 3, 0]" 2 24000]
    unfolding len d view3 by simp
  moreover have "[0..<2] = [0, Suc 0]"
    by (simp add: upt_conv_Cons numeral_2_eq_2)
  ultimately show ?thesis
    by (simp add: view3 int16_div_def)
qed

lemma int16_div_in_range:
  fixes k c j n :: nat
  assumes "k < c" "j < n div c"
  shows "j * c + k < n"
proof -
  have "j * c + k < (j + 1) * c" using assms(1) by simp
  also have "\<dots> \<le> (n div c) * c" using assms(2) by (intro mult_le_mono1) simp
  also have "\<dots> \<le> n" by simp
  finally show ?thesis .
qed

lemma channels_in_range:
  "map (\<lambda>k. map (\<lambda>j. int16_div d (j * c + k)) [0..<length d div c]) [0..<c] =
   map (\<lambda>k. map (\<lambda>j. Num (real_of_int (sint (d ! (j * c + k))) / 32768)) [0..<length d div c]) [0..<c]"
  by (intro map_cong refl) (simp add: int16_div_def int16_div_in_range)

text \<open>
  Claim C5, amended. For an even number of bytes, between 1 and 32 channels, at least as
  many 16-bit samples as channels and a supported rate, \<^verbatim>\<open>decodeAudioData\<close> returns a
  buffer whose frame count is the sample count divided by the channel count, rounded down
  (the exact quotient when the channel count divides the sample count); channel \<open>k\<close> holds
  the samples \<open>j * numChannels + k\<close>, each divided by 32768. There is no alignment check.
\<close>

theorem decodeAudioData_frameCount:
  assumes "even (length data)" "0 < numChannels" "numChannels \<le> 32"
    "numChannels \<le> length (int16_view data)" "8000 \<le> sampleRate" "sampleRate \<le> 96000"
  shows "decodeAudioData data sampleRate numChannels =
      Inr \<lparr>buf_sampleRate = sampleRate,
           buf_length = length (int16_view data) div numChannels,
           buf_channels =
             map (\<lambda>k. map (\<lambda>j. Num (real_of_int (sint (int16_view data ! (j * numChannels + k))) / 32768))
                    [0..<length (int16_view data) div numChannels])
               [0..<numChannels]\<rparr> \<and>
    int (length (int16_view data) div numChannels) =
      \<lfloor>real (length (int16_view data)) / real numChannels\<rfloor> \<and>
    (numChannels dvd length (int16_view data) \<longrightarrow>
       real (length (int16_view data) div numChannels) =
         real (length (int16_view data)) / real numChannels)"
proof (intro conjI impI)
  show "decodeAudioData data sampleRate numChannels =
      Inr \<lparr>buf_sampleRate = sampleRate,
           buf_length = length (int16_view data) div numChannels,
           buf_channels =
             map (\<lambda>k. map (\<lambda>j. Num (real_of_int (sint (int16_view data ! (j * numChannels + k))) / 32768))
                    [0..<length (int16_view data) div numChannels])
               [0..<numChannels]\<rparr>"
    using decodeAudioData_eq [of data numChannels sampleRate] assms
      channels_in_range [of "int16_view data" numChannels]
    by (simp add: length_int16_view)
  show "int (length (int16_view data) div numChannels) =
      \<lfloor>real (length (int16_view data)) / real numChannels\<rfloor>"
    by (simp add: floor_divide_of_nat_eq)
  show "real (length (int16_view data) div numChannels) =
      real (length (int16_view data)) / real numChannels"
    if "numChannels dvd length (int16_view data)"
    using that by (simp add: real_of_nat_div)
qed

text \<open>Four samples, two channels: two frames per channel.\<close>

theorem decodeAudioData_frameCount_witness:
  "decodeAudioData [1, 0, 2, 0, 3, 0, 4, 0] 24000 2 =
     Inr \<lparr>buf_sampleRate = 24000, buf_length = 2,
          buf_channels = [[Num (1 / 32768), Num (3 / 32768)], [Num (2 / 32768), Num (4 / 32768)]]\<rparr>"
proof -
  have view: "int16_view [1, 0, 2, 0, 3, 0, 4, 0] = [1, 2, 3, 4]"
    by (simp add: bytes_int16_def)
  have upt: "[0..<2] = [0, Suc 0]"
    by (simp add: upt_conv_Cons numeral_2_eq_2)
  have d: "(4 :: nat) div 2 = 2"
    by simp
  show ?thesis
    using decodeAudioData_frameCount [of "[1, 0, 2, 0, 3, 0, 4, 0]" 2 24000]
    unfolding view by (simp add: upt d)
qed

lemma scaled_back_neg:
  fixes F f :: real
  assumes "f * 32768 \<le> F" "F < f * 32768 + 1"
  shows "f \<le> F / 32768 \<and> F / 32768 - f < 1 / 32768"
  using assms by linarith

lemma scaled_back_pos:
  fixes F f :: real
  assumes "F \<le> f * 32767" "f * 32767 - 1 < F" "0 \<le> f"
  shows "F / 32768 \<le> f \<and> f - F / 32768 < (1 + f) / 32768"
proof
  show "F / 32768 \<le> f" using assms(1,3) by linarith
  have "f * 32768 - F < 1 + f" using assms(2) by linarith
  then have "(f * 32768 - F) / 32768 < (1 + f) / 32768"
    by (rule divide_strict_right_mono) simp
  then show "f - F / 32768 < (1 + f) / 32768"
    by (simp add: diff_divide_distrib)
qed

lemma roundtrip_bounds:
  fixes f :: real
  assumes "- 1 \<le> f" "f \<le> 1"
  defines "g \<equiv> real_of_int (sint (pcm16 (Num f))) / 32768"
  shows "f < 0 \<Longrightarrow> f \<le> g \<and> g - f < 1 / 32768"
    and "0 \<le> f \<Longrightarrow> g \<le> f \<and> f - g < (1 + f) / 32768"
proof -
  have s: "min 1 f = f" "max (- 1) f = f" using assms(1,2) by simp_all
  {
    assume neg: "f < 0"
    then have v: "sint (pcm16 (Num f)) = \<lceil>f * 32768\<rceil>"
      by (simp add: sint_pcm16 s)
    have "f * 32768 \<le> real_of_int \<lceil>f * 32768\<rceil>" "real_of_int \<lceil>f * 32768\<rceil> < f * 32768 + 1"
      by linarith+
    then show "f \<le> g \<and> g - f < 1 / 32768"
      unfolding g_def v by (rule scaled_back_neg)
  }
  {
    assume pos: "0 \<le> f"
    then have v: "sint (pcm16 (Num f)) = \<lfloor>f * 32767\<rfloor>"
      by (simp add: sint_pcm16 s)
    have "real_of_int \<lfloor>f * 32767\<rfloor> \<le> f * 32767" "f * 32767 - 1 < real_of_int \<lfloor>f * 32767\<rfloor>"
      by linarith+
    then show "g \<le> f \<and> f - g < (1 + f) / 32768"
      unfolding g_def v using pos by (rule scaled_back_pos)
  }
qed

text \<open>
  Claim C6, amended. For \<open>f\<close> in \<open>[-1, 1]\<close> the round trip returns the stored 16-bit value
  divided by 32768. For negative \<open>f\<close> the result is at least \<open>f\<close> and less than 1/32768
  above it; for non-negative \<open>f\<close> it is at most \<open>f\<close> and less than \<open>(1 + f)/32768\<close> below it
  (the scale is 32767, the divisor 32768). In both cases the distance is below 2/32768.
\<close>

theorem pcm16_roundtrip_error:
  assumes "- 1 \<le> f" "f \<le> 1"
  shows "pcm16_roundtrip (Num f) = Inr (Num (real_of_int (sint (pcm16 (Num f))) / 32768)) \<and>
    (f < 0 \<longrightarrow> f \<le> real_of_int (sint (pcm16 (Num f))) / 32768 \<and>
       real_of_int (sint (pcm16 (Num f))) / 32768 - f < 1 / 32768) \<and>
    (0 \<le> f \<longrightarrow> real_of_int (sint (pcm16 (Num f))) / 32768 \<le> f \<and>
       f - real_of_int (sint (pcm16 (Num f))) / 32768 < (1 + f) / 32768) \<and>
    \<bar>f - real_of_int (sint (pcm16 (Num f))) / 32768\<bar> < 2 / 32768"
proof -
  define g where "g = real_of_int (sint (pcm16 (Num f))) / 32768"
  have neg: "f < 0 \<Longrightarrow> f \<le> g \<and> g - f < 1 / 32768"
    and pos: "0 \<le> f \<Longrightarrow> g \<le> f \<and> f - g < (1 + f) / 32768"
    using roundtrip_bounds [OF assms] by (simp_all add: g_def)
  have ab: "\<bar>f - g\<bar> < 2 / 32768"
  proof (cases "f < 0")
    case True
    with neg show ?thesis by simp
  next
    case False
    with pos have "g \<le> f" "f - g < (1 + f) / 32768" by simp_all
    moreover have "(1 + f) / 32768 \<le> 2 / 32768" using assms(2) by simp
    ultimately show ?thesis by simp
  qed
  from neg pos ab show ?thesis
    unfolding g_def pcm16_roundtrip_eq by blast
qed

text \<open>The sample 1/2 is stored as 16383 and comes back as 16383/32768.\<close>

theorem pcm16_roundtrip_error_witness:
  "pcm16_roundtrip (Num (1 / 2)) = Inr (Num (16383 / 32768)) \<and>
   \<bar>1 / 2 - 16383 / 32768\<bar> < (2 / 32768 :: real)"
proof -
  have "sint (pcm16 (Num (1 / 2))) = 16383"
    by (simp add: sint_pcm16)
  with pcm16_roundtrip_error [of "1 / 2"] show ?thesis
    by simp
qed

section \<open>Properties of double-precision rounding\<close>

lemma pow2_powr: "pow2 e = 2 powr (real_of_int e)"
proof (cases "0 \<le> e")
  case True
  then have "2 powr real_of_int e = 2 powr real (nat e)" by simp
  also have "\<dots> = 2 ^ nat e" by (simp add: powr_realpow)
  finally show ?thesis
    using True by (simp add: pow2_def)
next
  case False
  then have "2 powr real_of_int e = 2 powr (- real (nat (- e)))" by simp
  also have "\<dots> = 1 / 2 powr real (nat (- e))"
    by (simp add: powr_minus inverse_eq_divide)
  also have "\<dots> = 1 / 2 ^ nat (- e)" by (simp add: powr_realpow)
  finally show ?thesis
    using False by (simp add: pow2_def)
qed

lemma pow2_pos: "0 < pow2 e"
  by (simp add: pow2_powr)

lemma pow2_add: "pow2 (a + b) = pow2 a * pow2 b"
  by (simp add: pow2_powr powr_add)

lemma pow2_Suc: "pow2 (e + 1) = 2 * pow2 e"
  by (simp add: pow2_powr powr_add)

lemma pow2_pred: "pow2 (e - 1) = pow2 e / 2"
  by (simp add: pow2_powr powr_diff)

lemma pow2_mono: "a \<le> b \<Longrightarrow> pow2 a \<le> pow2 b"
  by (simp add: pow2_powr)

lemma pow2_less_iff: "pow2 a < pow2 b \<longleftrightarrow> a < b"
  by (simp add: pow2_powr)

lemma pow2_0: "pow2 0 = 1"
  by (simp add: pow2_def)

lemma exp_up_bounds:
  "1 \<le> x \<Longrightarrow> pow2 (exp_up x) \<le> x \<and> x < pow2 (exp_up x + 1)"
proof (induction x rule: exp_up.induct)
  case (1 x)
  show ?case
  proof (cases "2 \<le> x")
    case True
    then have "pow2 (exp_up (x / 2)) \<le> x / 2 \<and> x / 2 < pow2 (exp_up (x / 2) + 1)"
      using 1(1) by simp
    moreover have e: "exp_up x = exp_up (x / 2) + 1"
      using True by (subst exp_up.simps) simp
    moreover have "pow2 (exp_up (x / 2) + 1) = 2 * pow2 (exp_up (x / 2))"
      "pow2 (exp_up (x / 2) + 1 + 1) = 2 * pow2 (exp_up (x / 2) + 1)"
      by (rule pow2_Suc)+
    ultimately show ?thesis
      unfolding e by linarith
  next
    case False
    then have "exp_up x = 0"
      by (subst exp_up.simps) simp
    moreover have "pow2 1 = 2"
      by (simp add: pow2_def)
    ultimately show ?thesis
      using False 1(2) by (simp add: pow2_0)
  qed
qed

lemma exp_down_bounds:
  "0 < x \<Longrightarrow> x < 1 \<Longrightarrow> pow2 (exp_down x) \<le> x \<and> x < pow2 (exp_down x + 1)"
proof (induction x rule: exp_down.induct)
  case (1 x)
  have e: "exp_down x = exp_down (2 * x) - 1"
    using 1(2,3) by (subst exp_down.simps) simp
  show ?case
  proof (cases "2 * x < 1")
    case True
    then have "pow2 (exp_down (2 * x)) \<le> 2 * x \<and> 2 * x < pow2 (exp_down (2 * x) + 1)"
      using 1 by simp
    moreover have "pow2 (exp_down (2 * x) + 1) = 2 * pow2 (exp_down (2 * x))"
      "pow2 (exp_down (2 * x) - 1) = pow2 (exp_down (2 * x)) / 2"
      by (rule pow2_Suc, rule pow2_pred)
    ultimately show ?thesis
      unfolding e by simp
  next
    case False
    then have "exp_down (2 * x) = 0"
      by (subst exp_down.simps) simp
    moreover have "pow2 (- 1) = 1 / 2"
      by (simp add: pow2_def)
    ultimately show ?thesis
      using False 1(3) by (simp add: e pow2_0)
  qed
qed

lemma exponent_bounds:
  assumes "x \<noteq> 0"
  shows "pow2 (exponent x) \<le> \<bar>x\<bar>" "\<bar>x\<bar> < pow2 (exponent x + 1)"
proof -
  have "pow2 (exponent x) \<le> \<bar>x\<bar> \<and> \<bar>x\<bar> < pow2 (exponent x + 1)"
  proof (cases "1 \<le> \<bar>x\<bar>")
    case True
    then show ?thesis
      using exp_up_bounds [of "\<bar>x\<bar>"] by (simp add: exponent_def)
  next
    case False
    then show ?thesis
      using exp_down_bounds [of "\<bar>x\<bar>"] assms by (simp add: exponent_def)
  qed
  then show "pow2 (exponent x) \<le> \<bar>x\<bar>" "\<bar>x\<bar> < pow2 (exponent x + 1)"
    by simp_all
qed

lemma rne_error: "\<bar>real_of_int (rne y) - y\<bar> \<le> 1 / 2"
proof -
  have "real_of_int \<lfloor>y\<rfloor> \<le> y" "y < real_of_int \<lfloor>y\<rfloor> + 1"
    by linarith+
  then show ?thesis
    by (auto simp: rne_def Let_def)
qed

lemma rne_nonneg: "0 \<le> y \<Longrightarrow> 0 \<le> rne y"
proof -
  assume "0 \<le> y"
  then have "0 \<le> \<lfloor>y\<rfloor>" by simp
  then show ?thesis
    by (auto simp: rne_def Let_def)
qed

lemma round_to_error:
  "\<bar>round_to p emin x - x\<bar> \<le> \<bar>x\<bar> * pow2 (- int p) + pow2 (emin - int p)"
proof (cases "x = 0")
  case True
  then show ?thesis
    using pow2_pos [of "emin - int p"] by (simp add: round_to_def)
next
  case False
  define e where "e = max (exponent x) emin"
  define u where "u = pow2 (e - int p + 1)"
  have u: "0 < u" by (simp add: u_def pow2_pos)
  have r: "round_to p emin x = real_of_int (rne (x / u)) * u"
    using False by (simp add: round_to_def Let_def u_def e_def)
  have "\<bar>real_of_int (rne (x / u)) * u - x\<bar> = \<bar>real_of_int (rne (x / u)) - x / u\<bar> * u"
  proof -
    have "real_of_int (rne (x / u)) * u - x = (real_of_int (rne (x / u)) - x / u) * u"
      using u by (simp add: field_simps)
    then show ?thesis
      using u by (simp add: abs_mult)
  qed
  also have "\<dots> \<le> 1 / 2 * u"
    using rne_error [of "x / u"] u by (intro mult_right_mono) simp_all
  also have "1 / 2 * u = pow2 (e - int p)"
    by (simp add: u_def pow2_Suc)
  also have "pow2 (e - int p) \<le> \<bar>x\<bar> * pow2 (- int p) + pow2 (emin - int p)"
  proof (cases "emin \<le> exponent x")
    case True
    then have "e = exponent x" by (simp add: e_def)
    then have "pow2 (e - int p) = pow2 (exponent x) * pow2 (- int p)"
      using pow2_add [of "exponent x" "- int p"] by simp
    also have "\<dots> \<le> \<bar>x\<bar> * pow2 (- int p)"
      using exponent_bounds(1) [OF False] pow2_pos [of "- int p"]
      by (intro mult_right_mono) simp_all
    finally show ?thesis
      using pow2_pos [of "emin - int p"] by linarith
  next
    case False
    then have "e = emin" by (simp add: e_def)
    then show ?thesis
      using pow2_pos [of "- int p"] by simp
  qed
  finally show ?thesis
    by (simp add: r)
qed

lemma round_to_nonneg: "0 \<le> x \<Longrightarrow> 0 \<le> round_to p emin x"
proof -
  assume "0 \<le> x"
  then have "0 \<le> rne (x / pow2 (max (exponent x) emin - int p + 1))"
    using pow2_pos [of "max (exponent x) emin - int p + 1"]
    by (intro rne_nonneg divide_nonneg_pos)
  then show ?thesis
    using pow2_pos [of "max (exponent x) emin - int p + 1"]
    by (simp add: round_to_def Let_def)
qed

lemma fl64_error: "\<bar>fl64 x - x\<bar> \<le> \<bar>x\<bar> * pow2 (- 53) + pow2 (- 1075)"
  using round_to_error [of 53 "- 1022" x] by (simp add: fl64_def)

lemma fl64_nonneg: "0 \<le> x \<Longrightarrow> 0 \<le> fl64 x"
  by (simp add: fl64_def round_to_nonneg)

lemma pow2_minus_numeral: "pow2 (- 53) = 1 / 2 ^ 53" "pow2 (- 49) = 1 / 2 ^ 49"
  by (simp_all add: pow2_def)

lemma eta_small: "pow2 (- 1075) \<le> 1 / 2 ^ 107" "0 < pow2 (- 1075)"
proof -
  have "pow2 (- 1075) \<le> pow2 (- 107)"
    by (rule pow2_mono) simp
  also have "pow2 (- 107) = 1 / 2 ^ 107"
    by (simp add: pow2_def)
  finally show "pow2 (- 1075) \<le> 1 / 2 ^ 107" .
  show "0 < pow2 (- 1075)" by (rule pow2_pos)
qed

lemma fl64_bounds:
  assumes "0 \<le> x"
  shows "fl64 x \<le> x * (1 + 1 / 2 ^ 53) + pow2 (- 1075)"
    and "x * (1 - 1 / 2 ^ 53) - pow2 (- 1075) \<le> fl64 x"
proof -
  have "\<bar>fl64 x - x\<bar> \<le> x * (1 / 2 ^ 53) + pow2 (- 1075)"
    using fl64_error [of x] assms by (simp add: pow2_minus_numeral)
  then have "fl64 x - x \<le> x * (1 / 2 ^ 53) + pow2 (- 1075)"
    "x - fl64 x \<le> x * (1 / 2 ^ 53) + pow2 (- 1075)"
    by linarith+
  then show "fl64 x \<le> x * (1 + 1 / 2 ^ 53) + pow2 (- 1075)"
    "x * (1 - 1 / 2 ^ 53) - pow2 (- 1075) \<le> fl64 x"
    by (simp_all add: algebra_simps)
qed

lemma ratio_bounds:
  fixes a :: real
  assumes "1 / 2 ^ 49 \<le> a"
  shows "a * (1 - 1 / 2 ^ 52) \<le> fl64 a" "fl64 a \<le> a * (1 + 1 / 2 ^ 52)" "0 < fl64 a"
proof -
  have a: "0 < a" using assms by (rule less_le_trans [rotated]) simp
  have "pow2 (- 1075) \<le> 1 / 2 ^ 107" by (rule eta_small)
  also have "(1 :: real) / 2 ^ 107 \<le> 1 / 2 ^ 49 * (1 / 2 ^ 53)" by simp
  also have "\<dots> \<le> a * (1 / 2 ^ 53)"
    using assms by (intro mult_right_mono) simp_all
  finally have eta: "pow2 (- 1075) \<le> a * (1 / 2 ^ 53)" .
  have up: "fl64 a \<le> a * (1 + 1 / 2 ^ 53) + pow2 (- 1075)"
    and lo: "a * (1 - 1 / 2 ^ 53) - pow2 (- 1075) \<le> fl64 a"
    using fl64_bounds [of a] a by simp_all
  show lower: "a * (1 - 1 / 2 ^ 52) \<le> fl64 a"
    using lo eta by (simp add: algebra_simps)
  show "fl64 a \<le> a * (1 + 1 / 2 ^ 52)"
    using up eta by (simp add: algebra_simps)
  have "0 < a * (1 - 1 / 2 ^ 52)"
    using a by simp
  with lower show "0 < fl64 a" by linarith
qed

lemma quotient_bounds:
  fixes n a a' d :: real
  assumes "0 < a" "0 \<le> n" "0 \<le> d" "d \<le> 1 / 2" "a * (1 - d) \<le> a'" "a' \<le> a * (1 + d)"
  shows "n / a * (1 - d) \<le> n / a'" "n / a' \<le> n / a * (1 + 2 * d)"
proof -
  define x where "x = n / a"
  have x: "0 \<le> x" "x * a = n"
    using assms(1,2) by (simp_all add: x_def)
  have a': "0 < a'"
  proof -
    have "0 < a * (1 - d)" using assms(1,4) by simp
    with assms(5) show ?thesis by linarith
  qed
  have "x * (1 - d) * a' \<le> x * (1 - d) * (a * (1 + d))"
    using assms(4,6) x(1) by (intro mult_left_mono) simp_all
  also have "\<dots> = n * (1 - d * d)"
  proof -
    have "x * (1 - d) * (a * (1 + d)) = (x * a) * (1 - d * d)"
      by (simp add: algebra_simps)
    then show ?thesis by (simp only: x(2))
  qed
  also have "\<dots> \<le> n"
    using assms(2) by (simp add: mult_left_le)
  finally have "x * (1 - d) \<le> n / a'"
    using a' by (simp add: pos_le_divide_eq)
  then show "n / a * (1 - d) \<le> n / a'"
    by (simp add: x_def)
  have "n \<le> n * ((1 + 2 * d) * (1 - d))"
  proof -
    have "(1 + 2 * d) * (1 - d) = 1 + d * (1 - 2 * d)" by (simp add: algebra_simps)
    moreover have "0 \<le> d * (1 - 2 * d)" using assms(3,4) by simp
    ultimately have "1 \<le> (1 + 2 * d) * (1 - d)" by simp
    then show ?thesis
      using mult_left_mono [of 1 "(1 + 2 * d) * (1 - d)" n] assms(2) by simp
  qed
  also have "\<dots> = x * (1 + 2 * d) * (a * (1 - d))"
  proof -
    have "x * (1 + 2 * d) * (a * (1 - d)) = (x * a) * ((1 + 2 * d) * (1 - d))"
      by (simp add: algebra_simps)
    then show ?thesis by (simp only: x(2))
  qed
  also have "\<dots> \<le> x * (1 + 2 * d) * a'"
    using assms(3,5) x(1) by (intro mult_left_mono) simp_all
  finally have "n / a' \<le> x * (1 + 2 * d)"
    using a' by (simp add: pos_divide_le_eq)
  then show "n / a' \<le> n / a * (1 + 2 * d)"
    by (simp add: x_def)
qed



lemma fl64_ratio_70400: "fl64 (22 / 5) = 2476979795053773 / 562949953421312"
  by (simp add: fl64_def round_to_def exponent_def exp_up.simps pow2_def rne_def Let_def)

lemma newLength_33_70400: "math_round (fl64 (33 / fl64 (70400 / 16000))) = 7"
  by (simp add: fl64_def round_to_def exponent_def exp_up.simps pow2_def rne_def Let_def
      math_round_def)

section \<open>Properties of the resampler\<close>

lemma length_downsample_loop:
  "length (downsample_loop buffer ratio newLength i result) = length result"
proof (induction buffer ratio newLength i result rule: downsample_loop.induct)
  case (1 buffer ratio newLength i result)
  show ?case
  proof (cases "i < newLength")
    case True
    with 1 show ?thesis
      by (subst downsample_loop.simps) simp
  next
    case False
    then show ?thesis
      by (subst downsample_loop.simps) simp
  qed
qed

lemma downsample_loop_map:
  "length result = newLength \<Longrightarrow> i \<le> newLength \<Longrightarrow>
   downsample_loop buffer ratio newLength i result =
     take i result @ map (interpolate buffer ratio) [i..<newLength]"
proof (induction buffer ratio newLength i result rule: downsample_loop.induct)
  case (1 buffer ratio newLength i result)
  show ?case
  proof (cases "i < newLength")
    case True
    have "downsample_loop buffer ratio newLength i result =
        downsample_loop buffer ratio newLength (i + 1) (result[i := interpolate buffer ratio i])"
      using True by (subst downsample_loop.simps) simp
    also have "\<dots> = take (i + 1) (result[i := interpolate buffer ratio i]) @
        map (interpolate buffer ratio) [i + 1..<newLength]"
      using 1(1) [OF True] 1(2) True by simp
    also have "take (i + 1) (result[i := interpolate buffer ratio i]) =
        take i result @ [interpolate buffer ratio i]"
      using True 1(2) by (simp add: take_Suc_conv_app_nth)
    also have "(take i result @ [interpolate buffer ratio i]) @
        map (interpolate buffer ratio) [i + 1..<newLength] =
        take i result @ map (interpolate buffer ratio) [i..<newLength]"
      using True by (simp add: upt_conv_Cons)
    finally show ?thesis .
  next
    case False
    with 1(2,3) show ?thesis
      by (subst downsample_loop.simps) simp
  qed
qed

lemma downsampleTo16k_eq:
  assumes "inputRate \<noteq> 16000" "fl64 (inputRate / 16000) \<noteq> 0"
    "0 \<le> math_round (fl64 (real (length buffer) / fl64 (inputRate / 16000)))"
    "math_round (fl64 (real (length buffer) / fl64 (inputRate / 16000))) \<le> 2 ^ 53 - 1"
  shows "downsampleTo16k buffer inputRate =
    Inr (map (interpolate buffer (fl64 (inputRate / 16000)))
          [0..<nat (math_round (fl64 (real (length buffer) / fl64 (inputRate / 16000))))])"
  using assms by (simp add: downsampleTo16k_def Let_def downsample_loop_map)

lemma downsampleTo16k_empty:
  assumes "inputRate \<noteq> 16000"
  shows "downsampleTo16k [] inputRate = Inr []"
proof -
  have "fl64 0 = 0" by (simp add: fl64_def round_to_def)
  then have "math_round (fl64 0) = 0" by (simp add: math_round_def)
  then show ?thesis
    using assms \<open>fl64 0 = 0\<close>
    by (simp add: downsampleTo16k_def Let_def downsample_loop.simps [of _ _ 0])
qed

text \<open>
  The length is not always \<open>round (|S| * 16000 / r1)\<close>. For 33 samples at 70400 Hz the
  ratio 4.4 is not a double and the rounded ratio lies above it; the rounded quotient of 33
  by it is 7.499999999999999, so the output has 7 elements, while \<open>33 * 16000 / 70400\<close> is
  7.5 and rounds to 8.
\<close>

lemma downsampleTo16k_33_at_70400:
  "map_sum id length (downsampleTo16k (replicate 33 (Num 0)) 70400) = Inr 7 \<and>
   round (33 * 16000 / 70400 :: real) = 8"
proof -
  have "math_round (fl64 (real (length (replicate 33 (Num 0))) / fl64 (70400 / 16000))) = 7"
    using newLength_33_70400 by simp
  then have "map_sum id length (downsampleTo16k (replicate 33 (Num 0)) 70400) = Inr 7"
    using downsampleTo16k_eq [of 70400 "replicate 33 (Num 0)"]
    by (simp add: fl64_ratio_70400)
  moreover have "round (33 * 16000 / 70400 :: real) = 8"
    by (simp add: round_def)
  ultimately show ?thesis by simp
qed

lemma resample_analysis:
  fixes n :: nat and r :: real
  assumes "1 \<le> n" "0 < r" "real n * 16000 / r \<le> 2 ^ 49"
  shows "0 < fl64 (r / 16000)"
    and "real n / 2 ^ 50 \<le> fl64 (r / 16000)"
    and "0 \<le> fl64 (real n / fl64 (r / 16000))"
    and "\<bar>fl64 (real n / fl64 (r / 16000)) - real n * 16000 / r\<bar> \<le> 1 / 2"
    and "fl64 (real n / fl64 (r / 16000)) * fl64 (r / 16000) \<le>
           real n * (1 + 1 / 2 ^ 53) + fl64 (r / 16000) / 4"
proof -
  define a where "a = r / 16000"
  define x where "x = real n / a"
  define ratio where "ratio = fl64 a"
  define qx where "qx = real n / ratio"
  define q where "q = fl64 qx"
  have a: "0 < a" using assms(2) by (simp add: a_def)
  have xr: "x = real n * 16000 / r" by (simp add: x_def a_def)
  have x49: "x \<le> 2 ^ 49" using assms(3) by (simp add: xr)
  have x0: "0 \<le> x" using a by (simp add: x_def)
  have n1: "1 \<le> real n" using assms(1) by simp
  have "real n \<le> 2 ^ 49 * a"
    using x49 a by (simp add: x_def pos_divide_le_eq)
  then have na: "real n / 2 ^ 49 \<le> a" by simp
  then have a49: "1 / 2 ^ 49 \<le> a" using n1 by (simp add: field_simps)
  note rb = ratio_bounds [OF a49, folded ratio_def]
  show pos: "0 < fl64 (r / 16000)"
    using rb(3) by (simp add: ratio_def a_def)
  have "real n / 2 ^ 50 \<le> a * (1 - 1 / 2 ^ 52)"
    using na n1 by (simp add: field_simps)
  with rb(1) have r50: "real n / 2 ^ 50 \<le> ratio" by linarith
  then show "real n / 2 ^ 50 \<le> fl64 (r / 16000)"
    by (simp add: ratio_def a_def)
  have qb: "x * (1 - 1 / 2 ^ 52) \<le> qx" "qx \<le> x * (1 + 2 * (1 / 2 ^ 52))"
    using quotient_bounds [of a "real n" "1 / 2 ^ 52" ratio] a rb(1,2)
    by (simp_all add: x_def qx_def)
  have qx0: "0 \<le> qx" using rb(3) by (simp add: qx_def)
  note fb = fl64_bounds [OF qx0, folded q_def]
  note eta = eta_small
  have q0: "0 \<le> q" using qx0 by (simp add: q_def fl64_nonneg)
  then show "0 \<le> fl64 (real n / fl64 (r / 16000))"
    by (simp add: q_def qx_def ratio_def a_def)
  have "q - x \<le> 1 / 2"
    using fb(1) qb(2) x49 x0 eta by (simp add: algebra_simps)
  moreover have "x - q \<le> 1 / 2"
    using fb(2) qb(1) x49 x0 eta by (simp add: algebra_simps)
  ultimately have "\<bar>q - x\<bar> \<le> 1 / 2" by linarith
  then show "\<bar>fl64 (real n / fl64 (r / 16000)) - real n * 16000 / r\<bar> \<le> 1 / 2"
    unfolding q_def qx_def ratio_def xr a_def .
  have "q * ratio \<le> (qx * (1 + 1 / 2 ^ 53) + pow2 (- 1075)) * ratio"
    using fb(1) rb(3) by (intro mult_right_mono) simp_all
  also have "\<dots> = qx * ratio * (1 + 1 / 2 ^ 53) + pow2 (- 1075) * ratio"
    by (simp add: algebra_simps)
  also have "qx * ratio = real n"
    using rb(3) by (simp add: qx_def)
  also have "pow2 (- 1075) * ratio \<le> 1 / 4 * ratio"
    using eta rb(3) by (intro mult_right_mono) simp_all
  finally have "q * ratio \<le> real n * (1 + 1 / 2 ^ 53) + ratio / 4"
    by simp
  then show "fl64 (real n / fl64 (r / 16000)) * fl64 (r / 16000) \<le>
           real n * (1 + 1 / 2 ^ 53) + fl64 (r / 16000) / 4"
    by (simp add: q_def qx_def ratio_def a_def)
qed

lemma math_round_close: "\<bar>real_of_int (math_round q) - q\<bar> \<le> 1 / 2"
  unfolding math_round_def by linarith

lemma newLength_range:
  fixes n :: nat and r :: real
  assumes "1 \<le> n" "0 < r" "real n * 16000 / r \<le> 2 ^ 49"
  shows "0 \<le> math_round (fl64 (real n / fl64 (r / 16000)))"
    and "math_round (fl64 (real n / fl64 (r / 16000))) \<le> 2 ^ 53 - 1"
    and "\<bar>real_of_int (math_round (fl64 (real n / fl64 (r / 16000)))) - real n * 16000 / r\<bar> \<le> 1"
proof -
  define q where "q = fl64 (real n / fl64 (r / 16000))"
  define x where "x = real n * 16000 / r"
  have q0: "0 \<le> q" and qx: "\<bar>q - x\<bar> \<le> 1 / 2"
    using resample_analysis(3,4) [OF assms] by (simp_all add: q_def x_def)
  have x: "x \<le> 2 ^ 49" using assms(3) by (simp add: x_def)
  have m: "\<bar>real_of_int (math_round q) - q\<bar> \<le> 1 / 2"
    by (rule math_round_close)
  have "0 \<le> math_round q"
    using q0 unfolding math_round_def by linarith
  then show "0 \<le> math_round (fl64 (real n / fl64 (r / 16000)))"
    by (simp add: q_def)
  have "real_of_int (math_round q) \<le> 2 ^ 49 + 1"
    using m qx x by linarith
  also have "\<dots> \<le> real_of_int (2 ^ 53 - 1)" by simp
  finally have "math_round q \<le> 2 ^ 53 - 1"
    by (simp only: of_int_le_iff)
  then show "math_round (fl64 (real n / fl64 (r / 16000))) \<le> 2 ^ 53 - 1"
    by (simp add: q_def)
  have "\<bar>real_of_int (math_round q) - x\<bar> \<le> 1"
    using m qx by linarith
  then show "\<bar>real_of_int (math_round (fl64 (real n / fl64 (r / 16000)))) - real n * 16000 / r\<bar> \<le> 1"
    by (simp add: q_def x_def)
qed

lemma resample_quotient_error:
  fixes n :: nat and r :: real
  assumes "1 \<le> n" "0 < r" "real n * 16000 / r \<le> 2 ^ 49"
  shows "\<bar>fl64 (real n / fl64 (r / 16000)) - real n * 16000 / r\<bar> \<le>
           real n * 16000 / r / 2 ^ 50 + 1 / 2 ^ 107"
proof -
  define a where "a = r / 16000"
  define x where "x = real n / a"
  define ratio where "ratio = fl64 a"
  define qx where "qx = real n / ratio"
  define q where "q = fl64 qx"
  have a: "0 < a" using assms(2) by (simp add: a_def)
  have xr: "x = real n * 16000 / r" by (simp add: x_def a_def)
  have x49: "x \<le> 2 ^ 49" using assms(3) by (simp add: xr)
  have x0: "0 \<le> x" using a by (simp add: x_def)
  have n1: "1 \<le> real n" using assms(1) by simp
  have "real n \<le> 2 ^ 49 * a"
    using x49 a by (simp add: x_def pos_divide_le_eq)
  then have na: "real n / 2 ^ 49 \<le> a" by simp
  then have a49: "1 / 2 ^ 49 \<le> a" using n1 by (simp add: field_simps)
  note rb = ratio_bounds [OF a49, folded ratio_def]
  have qb: "x * (1 - 1 / 2 ^ 52) \<le> qx" "qx \<le> x * (1 + 2 * (1 / 2 ^ 52))"
    using quotient_bounds [of a "real n" "1 / 2 ^ 52" ratio] a rb(1,2)
    by (simp_all add: x_def qx_def)
  have qx0: "0 \<le> qx" using rb(3) by (simp add: qx_def)
  note fb = fl64_bounds [OF qx0, folded q_def]
  note eta = eta_small
  have "qx * (1 + 1 / 2 ^ 53) \<le> x * (1 + 2 * (1 / 2 ^ 52)) * (1 + 1 / 2 ^ 53)"
    using qb(2) by (intro mult_right_mono) simp_all
  also have "\<dots> = x * ((1 + 2 * (1 / 2 ^ 52)) * (1 + 1 / 2 ^ 53))"
    by simp
  also have "\<dots> \<le> x * (1 + 1 / 2 ^ 50)"
    using x0 by (intro mult_left_mono) simp_all
  finally have "q \<le> x * (1 + 1 / 2 ^ 50) + 1 / 2 ^ 107"
    using fb(1) eta(1) by linarith
  then have up: "q - x \<le> x / 2 ^ 50 + 1 / 2 ^ 107"
    by (simp add: algebra_simps)
  have "x * (1 - 1 / 2 ^ 50) \<le> x * ((1 - 1 / 2 ^ 52) * (1 - 1 / 2 ^ 53))"
    using x0 by (intro mult_left_mono) simp_all
  also have "\<dots> = x * (1 - 1 / 2 ^ 52) * (1 - 1 / 2 ^ 53)"
    by simp
  also have "\<dots> \<le> qx * (1 - 1 / 2 ^ 53)"
    using qb(1) by (intro mult_right_mono) simp_all
  finally have "x * (1 - 1 / 2 ^ 50) - 1 / 2 ^ 107 \<le> q"
    using fb(2) eta(1) by linarith
  then have lo: "x - q \<le> x / 2 ^ 50 + 1 / 2 ^ 107"
    by (simp add: algebra_simps)
  from up lo have "\<bar>q - x\<bar> \<le> x / 2 ^ 50 + 1 / 2 ^ 107" by linarith
  then show ?thesis
    unfolding q_def qx_def ratio_def xr a_def .
qed

lemma math_round_eq_round:
  fixes q x d :: real
  assumes "\<bar>q - x\<bar> \<le> d" "\<lfloor>x + 1 / 2 - d\<rfloor> = \<lfloor>x + 1 / 2 + d\<rfloor>"
  shows "math_round q = round x"
proof -
  have d: "0 \<le> d" using assms(1) by linarith
  have "\<lfloor>x + 1 / 2 - d\<rfloor> \<le> \<lfloor>q + 1 / 2\<rfloor>" "\<lfloor>q + 1 / 2\<rfloor> \<le> \<lfloor>x + 1 / 2 + d\<rfloor>"
    using assms(1) by (intro floor_mono; linarith)+
  moreover have "\<lfloor>x + 1 / 2 - d\<rfloor> \<le> \<lfloor>x + 1 / 2\<rfloor>" "\<lfloor>x + 1 / 2\<rfloor> \<le> \<lfloor>x + 1 / 2 + d\<rfloor>"
    using d by (intro floor_mono; linarith)+
  ultimately have "\<lfloor>q + 1 / 2\<rfloor> = \<lfloor>x + 1 / 2\<rfloor>"
    using assms(2) by linarith
  then show ?thesis
    by (simp add: math_round_def round_def)
qed

lemma math_round_near_round:
  fixes q x :: real
  assumes "\<bar>q - x\<bar> \<le> 1 / 2"
  shows "\<bar>math_round q - round x\<bar> \<le> 1"
proof -
  have "\<lfloor>x + 1 / 2 - 1\<rfloor> \<le> \<lfloor>q + 1 / 2\<rfloor>" "\<lfloor>q + 1 / 2\<rfloor> \<le> \<lfloor>x + 1 / 2 + 1\<rfloor>"
    using assms by (intro floor_mono; linarith)+
  moreover have "\<lfloor>x + 1 / 2 - 1\<rfloor> = \<lfloor>x + 1 / 2\<rfloor> - 1" "\<lfloor>x + 1 / 2 + 1\<rfloor> = \<lfloor>x + 1 / 2\<rfloor> + 1"
    by linarith+
  ultimately show ?thesis
    by (simp add: math_round_def round_def)
qed

text \<open>
  Claim C8. At 16000 Hz the input is returned as it is. At any other rate an empty input
  gives an empty output. For a non-empty input \<open>S\<close> and a positive rate \<open>r1\<close> other than
  16000, with \<open>|S| * 16000 / r1\<close> at most \<open>2 ^ 49\<close>, the resampler returns an output whose
  length is \<^verbatim>\<open>Math.round\<close> of the double quotient of \<open>|S|\<close> by the double \<open>r1 / 16000\<close>.
  This length is within 1 of \<open>|S| * 16000 / r1\<close> and within 1 of its rounding, and it is
  equal to \<open>round (|S| * 16000 / r1)\<close> whenever no integer plus one half lies within
  \<open>|S| * 16000 / r1 / 2 ^ 50 + 1 / 2 ^ 107\<close> of \<open>|S| * 16000 / r1\<close>.
\<close>

theorem downsampleTo16k_length:
  "downsampleTo16k S 16000 = Inr S \<and>
   (r1 \<noteq> 16000 \<longrightarrow> downsampleTo16k [] r1 = Inr []) \<and>
   (S \<noteq> [] \<and> 0 < r1 \<and> r1 \<noteq> 16000 \<and> real (length S) * 16000 / r1 \<le> 2 ^ 49 \<longrightarrow>
      (\<exists>out. downsampleTo16k S r1 = Inr out \<and>
         int (length out) = math_round (fl64 (real (length S) / fl64 (r1 / 16000))) \<and>
         \<bar>real (length out) - real (length S) * 16000 / r1\<bar> \<le> 1 \<and>
         \<bar>int (length out) - round (real (length S) * 16000 / r1)\<bar> \<le> 1 \<and>
         (\<lfloor>real (length S) * 16000 / r1 + 1 / 2 -
             (real (length S) * 16000 / r1 / 2 ^ 50 + 1 / 2 ^ 107)\<rfloor> =
          \<lfloor>real (length S) * 16000 / r1 + 1 / 2 +
             (real (length S) * 16000 / r1 / 2 ^ 50 + 1 / 2 ^ 107)\<rfloor> \<longrightarrow>
          int (length out) = round (real (length S) * 16000 / r1))))"
proof (intro conjI impI)
  show "downsampleTo16k S 16000 = Inr S"
    by (simp add: downsampleTo16k_def)
  show "downsampleTo16k [] r1 = Inr []" if "r1 \<noteq> 16000"
    using that by (rule downsampleTo16k_empty)
  let ?x = "real (length S) * 16000 / r1"
  let ?d = "?x / 2 ^ 50 + 1 / 2 ^ 107"
  show "\<exists>out. downsampleTo16k S r1 = Inr out \<and>
         int (length out) = math_round (fl64 (real (length S) / fl64 (r1 / 16000))) \<and>
         \<bar>real (length out) - ?x\<bar> \<le> 1 \<and>
         \<bar>int (length out) - round ?x\<bar> \<le> 1 \<and>
         (\<lfloor>?x + 1 / 2 - ?d\<rfloor> = \<lfloor>?x + 1 / 2 + ?d\<rfloor> \<longrightarrow> int (length out) = round ?x)"
    if h: "S \<noteq> [] \<and> 0 < r1 \<and> r1 \<noteq> 16000 \<and> ?x \<le> 2 ^ 49"
  proof -
    let ?q = "fl64 (real (length S) / fl64 (r1 / 16000))"
    let ?m = "math_round ?q"
    let ?out = "map (interpolate S (fl64 (r1 / 16000))) [0..<nat ?m]"
    have n: "1 \<le> length S" using h by (cases S) simp_all
    have r: "0 < r1" "?x \<le> 2 ^ 49" using h by simp_all
    note rng = newLength_range [OF n r]
    have ratio: "fl64 (r1 / 16000) \<noteq> 0"
      using resample_analysis(1) [OF n r] by simp
    have res: "downsampleTo16k S r1 = Inr ?out"
      using h ratio rng(1,2) by (intro downsampleTo16k_eq) simp_all
    have len: "int (length ?out) = ?m"
      using rng(1) by simp
    have rlen: "real (length ?out) = real_of_int ?m"
      using len by (metis of_int_of_nat_eq)
    have near: "\<bar>?m - round ?x\<bar> \<le> 1"
      using resample_analysis(4) [OF n r] by (rule math_round_near_round)
    have exact: "?m = round ?x" if "\<lfloor>?x + 1 / 2 - ?d\<rfloor> = \<lfloor>?x + 1 / 2 + ?d\<rfloor>"
      using resample_quotient_error [OF n r] that by (rule math_round_eq_round)
    have "\<bar>real (length ?out) - ?x\<bar> \<le> 1"
      using rng(3) by (simp only: rlen)
    moreover have "\<bar>int (length ?out) - round ?x\<bar> \<le> 1"
      using near by (simp only: len)
    moreover have "\<lfloor>?x + 1 / 2 - ?d\<rfloor> = \<lfloor>?x + 1 / 2 + ?d\<rfloor> \<longrightarrow> int (length ?out) = round ?x"
      using exact by (simp only: len) blast
    ultimately show ?thesis
      using res len by (intro exI [of _ ?out]) blast
  qed
qed

lemma round_six_at_48000:
  "\<lfloor>real 6 * 16000 / 48000 + 1 / 2 - (real 6 * 16000 / 48000 / 2 ^ 50 + 1 / 2 ^ 107)\<rfloor> =
   \<lfloor>real 6 * 16000 / 48000 + 1 / 2 + (real 6 * 16000 / 48000 / 2 ^ 50 + 1 / 2 ^ 107)\<rfloor>"
  "round (real 6 * 16000 / 48000) = 2"
  by (simp_all add: round_def)

text \<open>
  33 samples at 70400 Hz give 7 elements, within 1 of 7.5; six samples at 48000 Hz give
  \<open>round 2 = 2\<close> elements; an empty block at 8000 Hz gives an empty one.
\<close>

theorem downsampleTo16k_length_witness:
  "(\<exists>out. downsampleTo16k (replicate 33 (Num 0)) 70400 = Inr out \<and> length out = 7) \<and>
   (\<exists>out. downsampleTo16k (replicate 6 (Num 0)) 48000 = Inr out \<and> length out = 2) \<and>
   downsampleTo16k [] 8000 = Inr []"
proof -
  have "math_round (fl64 (real (length (replicate 33 (Num 0))) / fl64 (70400 / 16000))) = 7"
    using newLength_33_70400 by simp
  then have "\<exists>out. downsampleTo16k (replicate 33 (Num 0)) 70400 = Inr out \<and> length out = 7"
    using downsampleTo16k_length [of "replicate 33 (Num 0)" 70400] by auto
  moreover have "\<exists>out. downsampleTo16k (replicate 6 (Num 0)) 48000 = Inr out \<and> length out = 2"
    using downsampleTo16k_length [of "replicate 6 (Num 0)" 48000] round_six_at_48000
    by auto
  moreover have "downsampleTo16k [] 8000 = Inr []"
    using downsampleTo16k_length [of "[]" 8000] by simp
  ultimately show ?thesis by blast
qed

lemma originalIndex_range:
  fixes n :: nat and r :: real
  assumes "1 \<le> n" "0 < r" "real n * 16000 / r \<le> 2 ^ 49"
    "i < nat (math_round (fl64 (real n / fl64 (r / 16000))))"
  shows "0 \<le> originalIndex (fl64 (r / 16000)) i"
    and "originalIndex (fl64 (r / 16000)) i < real n"
proof -
  define ratio where "ratio = fl64 (r / 16000)"
  define q where "q = fl64 (real n / ratio)"
  define y where "y = real i * ratio"
  have ratio: "0 < ratio" and r50: "real n / 2 ^ 50 \<le> ratio"
    and qr: "q * ratio \<le> real n * (1 + 1 / 2 ^ 53) + ratio / 4"
    using resample_analysis(1,2,5) [OF assms(1-3)] by (simp_all add: ratio_def q_def)
  have y0: "0 \<le> y" using ratio by (simp add: y_def)
  then show "0 \<le> originalIndex (fl64 (r / 16000)) i"
    by (simp add: originalIndex_def y_def ratio_def fl64_nonneg)
  have "int i + 1 \<le> math_round q"
    using assms(4) by (simp add: q_def ratio_def)
  then have "real_of_int (int i + 1) \<le> real_of_int (math_round q)"
    by (simp only: of_int_le_iff)
  moreover have "real_of_int (math_round q) \<le> q + 1 / 2"
    unfolding math_round_def by linarith
  ultimately have i: "real i \<le> q - 1 / 2" by simp
  have "y \<le> (q - 1 / 2) * ratio"
    unfolding y_def using i ratio by (intro mult_right_mono) simp_all
  also have "\<dots> = q * ratio - ratio / 2"
    by (simp add: algebra_simps)
  also have "\<dots> \<le> real n * (1 + 1 / 2 ^ 53) - ratio / 4"
    using qr by simp
  also have "\<dots> \<le> real n * (1 + 1 / 2 ^ 53) - real n / 2 ^ 52"
    using r50 by simp
  also have "\<dots> = real n * (1 - 1 / 2 ^ 53)"
    by (simp add: algebra_simps)
  finally have y: "y \<le> real n * (1 - 1 / 2 ^ 53)" .
  have n1: "1 \<le> real n" using assms(1) by simp
  have "fl64 y \<le> y * (1 + 1 / 2 ^ 53) + pow2 (- 1075)"
    using fl64_bounds(1) [OF y0] .
  also have "y * (1 + 1 / 2 ^ 53) \<le> real n * (1 - 1 / 2 ^ 53) * (1 + 1 / 2 ^ 53)"
    using y by (intro mult_right_mono) simp_all
  also have "real n * (1 - 1 / 2 ^ 53) * (1 + 1 / 2 ^ 53) = real n - real n / 2 ^ 106"
    by (simp add: algebra_simps)
  finally have "fl64 y \<le> real n - real n / 2 ^ 106 + pow2 (- 1075)"
    by simp
  moreover have "pow2 (- 1075) < real n / 2 ^ 106"
  proof -
    have "pow2 (- 1075) \<le> 1 / 2 ^ 107" by (rule eta_small)
    also have "(1 :: real) / 2 ^ 107 < 1 / 2 ^ 106" by simp
    also have "\<dots> \<le> real n / 2 ^ 106" using n1 by (simp add: divide_right_mono)
    finally show ?thesis .
  qed
  ultimately have "fl64 y < real n" by linarith
  then show "originalIndex (fl64 (r / 16000)) i < real n"
    by (simp add: originalIndex_def y_def ratio_def)
qed

lemma indices_in_bounds:
  fixes r :: real
  assumes "1 \<le> length buffer" "0 < r" "real (length buffer) * 16000 / r \<le> 2 ^ 49"
    "i < nat (math_round (fl64 (real (length buffer) / fl64 (r / 16000))))"
  shows "0 \<le> index1 (fl64 (r / 16000)) i"
    and "index1 (fl64 (r / 16000)) i \<le> int (length buffer) - 1"
    and "0 \<le> index2 buffer (fl64 (r / 16000)) i"
    and "index2 buffer (fl64 (r / 16000)) i \<le> int (length buffer) - 1"
proof -
  let ?o = "originalIndex (fl64 (r / 16000)) i"
  have o: "0 \<le> ?o" "?o < real (length buffer)"
    using originalIndex_range [OF assms] .
  show "0 \<le> index1 (fl64 (r / 16000)) i"
    unfolding index1_def using o(1) by simp
  have "\<lfloor>?o\<rfloor> < int (length buffer)"
    using o(2) by (simp add: floor_less_iff)
  then show "index1 (fl64 (r / 16000)) i \<le> int (length buffer) - 1"
    unfolding index1_def by simp
  have "0 \<le> \<lceil>?o\<rceil>"
    using o(1) by (simp add: le_ceiling_iff)
  moreover have "0 \<le> int (length buffer) - 1"
    using assms(1) by linarith
  ultimately show "0 \<le> index2 buffer (fl64 (r / 16000)) i"
    unfolding index2_def by (rule min.boundedI)
  show "index2 buffer (fl64 (r / 16000)) i \<le> int (length buffer) - 1"
    unfolding index2_def by simp
qed

lemma interpolate_not_NaN:
  "x \<noteq> NaN \<Longrightarrow> y \<noteq> NaN \<Longrightarrow>
   to_float32 (plus_double (times_double x a) (times_double y b)) \<noteq> NaN"
  by (cases x; cases y) (simp_all add: to_float32_def plus_double_def times_double_def)

text \<open>
  Claim C10. For a buffer of \<open>n \<ge> 1\<close> samples and a positive rate other than 16000, with
  \<open>n * 16000 / inputRate\<close> at most \<open>2 ^ 49\<close> (a rate for which the output can be allocated),
  \<^verbatim>\<open>downsampleTo16k\<close> returns. For each output index \<open>i\<close> the two positions the loop reads,
  \<open>index1\<close> and \<open>index2\<close>, lie in \<open>[0, n - 1]\<close>, and element \<open>i\<close> of the result is the
  interpolation of the two elements of the buffer at these positions: no read is out of
  range. Hence a buffer without \<open>NaN\<close> gives a result without \<open>NaN\<close>.
\<close>

theorem downsampleTo16k_reads_in_bounds:
  assumes "1 \<le> length buffer" "0 < inputRate" "inputRate \<noteq> 16000"
    "real (length buffer) * 16000 / inputRate \<le> 2 ^ 49"
  shows "\<exists>result. downsampleTo16k buffer inputRate = Inr result \<and>
    int (length result) =
      math_round (fl64 (real (length buffer) / fl64 (inputRate / 16000))) \<and>
    (\<forall>i<length result.
       0 \<le> index1 (fl64 (inputRate / 16000)) i \<and>
       index1 (fl64 (inputRate / 16000)) i \<le> int (length buffer) - 1 \<and>
       0 \<le> index2 buffer (fl64 (inputRate / 16000)) i \<and>
       index2 buffer (fl64 (inputRate / 16000)) i \<le> int (length buffer) - 1 \<and>
       result ! i =
         to_float32
           (plus_double
              (times_double (buffer ! nat (index1 (fl64 (inputRate / 16000)) i))
                 (fl64 (1 - weight (fl64 (inputRate / 16000)) i)))
              (times_double (buffer ! nat (index2 buffer (fl64 (inputRate / 16000)) i))
                 (weight (fl64 (inputRate / 16000)) i)))) \<and>
    (NaN \<notin> set buffer \<longrightarrow> NaN \<notin> set result)"
proof -
  let ?ratio = "fl64 (inputRate / 16000)"
  let ?m = "math_round (fl64 (real (length buffer) / ?ratio))"
  let ?result = "map (interpolate buffer ?ratio) [0..<nat ?m]"
  note rng = newLength_range [OF assms(1,2,4)]
  have ratio: "?ratio \<noteq> 0"
    using resample_analysis(1) [OF assms(1,2,4)] by simp
  have res: "downsampleTo16k buffer inputRate = Inr ?result"
    using assms(3) ratio rng(1,2) by (intro downsampleTo16k_eq) simp_all
  have len: "int (length ?result) = ?m"
    using rng(1) by simp
  have elem: "0 \<le> index1 ?ratio i \<and> index1 ?ratio i \<le> int (length buffer) - 1 \<and>
       0 \<le> index2 buffer ?ratio i \<and> index2 buffer ?ratio i \<le> int (length buffer) - 1 \<and>
       ?result ! i =
         to_float32
           (plus_double
              (times_double (buffer ! nat (index1 ?ratio i)) (fl64 (1 - weight ?ratio i)))
              (times_double (buffer ! nat (index2 buffer ?ratio i)) (weight ?ratio i)))"
    if "i < length ?result" for i
  proof -
    have i: "i < nat ?m" using that by simp
    note b = indices_in_bounds [OF assms(1,2,4) i]
    have "?result ! i = interpolate buffer ?ratio i"
      using i by simp
    with b show ?thesis
      by (simp add: interpolate_def sample_at_def)
  qed
  have nan: "NaN \<notin> set ?result" if "NaN \<notin> set buffer"
  proof
    assume "NaN \<in> set ?result"
    then obtain i where i: "i < length ?result" "?result ! i = NaN"
      by (auto simp: in_set_conv_nth)
    note e = elem [OF i(1)]
    have "nat (index1 ?ratio i) < length buffer" "nat (index2 buffer ?ratio i) < length buffer"
      using e assms(1) by linarith+
    then have "buffer ! nat (index1 ?ratio i) \<noteq> NaN" "buffer ! nat (index2 buffer ?ratio i) \<noteq> NaN"
      using that by (metis nth_mem)+
    then have "?result ! i \<noteq> NaN"
      using e interpolate_not_NaN by simp
    with i(2) show False by simp
  qed
  from res len elem nan show ?thesis
    by (intro exI [of _ ?result]) blast
qed

lemma resample_two_at_20000:
  "fl64 (5 / 4) = 5 / 4"
  "math_round (fl64 (8 / 5)) = 2"
  "index1 (5 / 4) (Suc 0) = 1"
  "\<lceil>originalIndex (5 / 4) (Suc 0)\<rceil> = 2"
  "index2 [Num 0, Num 1] (5 / 4) (Suc 0) = 1"
  "weight (5 / 4) (Suc 0) = 1 / 4"
  "to_float32 (plus_double (times_double (Num 1) (fl64 (3 / 4))) (times_double (Num 1) (1 / 4)))
     = Num 1"
  by (simp_all add: index1_def index2_def weight_def originalIndex_def math_round_def
      to_float32_def plus_double_def times_double_def
      fl64_def fl32_def round_to_def exponent_def exp_up.simps exp_down.simps pow2_def rne_def
      Let_def)

text \<open>
  Two samples at 20000 Hz: the ratio is 1.25 and the output has two elements. Element 1 is
  at source position 1.25: the first position read is 1, the second would be 2, past the
  end, and is clamped to 1; the element is the last sample of the buffer.
\<close>

theorem downsampleTo16k_reads_in_bounds_witness:
  "\<exists>result. downsampleTo16k [Num 0, Num 1] 20000 = Inr result \<and>
     length result = 2 \<and> index1 (fl64 (20000 / 16000)) 1 = 1 \<and>
     \<lceil>originalIndex (fl64 (20000 / 16000)) 1\<rceil> = 2 \<and>
     index2 [Num 0, Num 1] (fl64 (20000 / 16000)) 1 = 1 \<and>
     result ! 1 = Num 1 \<and> NaN \<notin> set result"
  using downsampleTo16k_reads_in_bounds [of "[Num 0, Num 1]" 20000]
  by (auto simp add: resample_two_at_20000)

section \<open>Properties of the capture callback\<close>







section \<open>Properties of the playback scheduler and the ducking controller\<close>

lemma insert_event_append:
  assumes "\<forall>x\<in>set evs. event_time x \<le> event_time e"
    and "\<forall>x\<in>set evs. same_type x e \<longrightarrow> event_time x \<noteq> event_time e"
  shows "insert_event e evs = evs @ [e]"
proof -
  have "filter (\<lambda>x. \<not> (same_type x e \<and> event_time x = event_time e)) evs = evs"
    using assms(2) by (intro filter_True) blast
  moreover have "takeWhile (\<lambda>x. event_time x \<le> event_time e) evs = evs"
    using assms(1) by (simp add: takeWhile_eq_all_conv)
  moreover have "dropWhile (\<lambda>x. event_time x \<le> event_time e) evs = []"
    using assms(1) by (simp add: dropWhile_eq_Nil_conv)
  ultimately show ?thesis
    by (simp add: insert_event_def)
qed

lemma set_after_cancel:
  "param_events (setValueAtTime v t (cancelScheduledValues t p)) =
     filter (\<lambda>e. event_time e < t) (param_events p) @ [SetValueAtTime v t]"
proof -
  have "insert_event (SetValueAtTime v t) (filter (\<lambda>e. event_time e < t) (param_events p)) =
      filter (\<lambda>e. event_time e < t) (param_events p) @ [SetValueAtTime v t]"
    by (rule insert_event_append) auto
  then show ?thesis
    by (simp add: setValueAtTime_def cancelScheduledValues_def)
qed

lemma ramp_after_set:
  assumes "0 \<le> d"
  shows "param_events (linearRampToValueAtTime w (t + d) (setValueAtTime v t (cancelScheduledValues t p))) =
     filter (\<lambda>e. event_time e < t) (param_events p) @
       [SetValueAtTime v t, LinearRampToValueAtTime w (t + d)]"
proof -
  let ?evs = "filter (\<lambda>e. event_time e < t) (param_events p) @ [SetValueAtTime v t]"
  have "insert_event (LinearRampToValueAtTime w (t + d)) ?evs =
      ?evs @ [LinearRampToValueAtTime w (t + d)]"
    using assms by (intro insert_event_append) auto
  then show ?thesis
    by (simp add: linearRampToValueAtTime_def set_after_cancel)
qed

lemma target_after_ramp:
  "0 \<le> d \<Longrightarrow>
   param_target (linearRampToValueAtTime w (t + d) (setValueAtTime v t (cancelScheduledValues t p))) = w"
  by (simp add: param_target_def ramp_after_set)

lemma target_after_set:
  "param_target (setValueAtTime v t (cancelScheduledValues t p)) = v"
  by (simp add: param_target_def set_after_cancel)

lemma decodeAudioData_duration:
  assumes "decodeAudioData audioData 24000 1 = Inr audioBuffer"
  shows "duration audioBuffer = real (length (int16_view audioData)) / 24000"
proof -
  have "\<lfloor>real (length (int16_view audioData))\<rfloor> = int (length (int16_view audioData))"
    by simp
  then show ?thesis
    using assms
    by (auto simp: decodeAudioData_def createBuffer_def duration_def Let_def
        split: if_splits)
qed

lemma on_audio_failed:
  assumes "decodeAudio audioBase64 = Inl e \<or>
    (\<exists>audioData. decodeAudio audioBase64 = Inr audioData \<and>
       decodeAudioData audioData 24000 1 = Inl e)"
  shows "on_audio c audioBase64 s = (Some e, s\<lparr>nextStartTimeRef := cursor_after c s\<rparr>)"
  using assms by (auto simp: on_audio_def cursor_after_def Let_def)

lemma on_audio_scheduled:
  assumes "decodeAudio audioBase64 = Inr audioData"
    "decodeAudioData audioData 24000 1 = Inr audioBuffer"
  shows "on_audio c audioBase64 s =
    (None,
     s\<lparr>nextStartTimeRef := cursor_after c s + duration audioBuffer,
       audioSourcesRef := set_add (length (nodes s)) (audioSourcesRef s),
       systemGainRef :=
         (case systemGainRef s of
            None \<Rightarrow> None
          | Some gain \<Rightarrow>
              Some (linearRampToValueAtTime 0 (inputCtx_currentTime c + 5 / 100)
                     (setValueAtTime (systemGain_value c) (inputCtx_currentTime c)
                       (cancelScheduledValues (inputCtx_currentTime c) gain)))),
       isModelSpeaking := True,
       nodes := nodes s @
         [\<lparr>node_duration = duration audioBuffer, node_started = True,
           node_when = cursor_after c s, node_stopped = False\<rparr>]\<rparr>)"
  using assms
  by (cases "systemGainRef s") (auto simp: on_audio_def cursor_after_def Let_def)

lemma on_audio_cases:
  obtains e where "on_audio c audioBase64 s = (Some e, s\<lparr>nextStartTimeRef := cursor_after c s\<rparr>)"
  | audioData audioBuffer where "decodeAudio audioBase64 = Inr audioData"
      "decodeAudioData audioData 24000 1 = Inr audioBuffer"
proof (cases "decodeAudio audioBase64")
  case (Inl e)
  then show ?thesis using on_audio_failed that(1) by blast
next
  case (Inr audioData)
  then show ?thesis
  proof (cases "decodeAudioData audioData 24000 1")
    case (Inl e)
    with Inr show ?thesis using on_audio_failed that(1) by blast
  next
    case Inr2: (Inr audioBuffer)
    with Inr show ?thesis using that(2) by blast
  qed
qed

lemma run_snoc: "run (evs @ [e]) s = step (run evs s) e"
  by (simp add: run_def)

lemma run_Cons: "run (e # evs) s = run evs (step s e)"
  by (simp add: run_def)

lemma run_Nil: "run [] s = s"
  by (simp add: run_def)

lemma length_stop_each: "length (stop_each ids ns) = length ns"
  by (induction ids ns rule: stop_each.induct) simp_all

lemma stop_each_started:
  "k < length ns \<Longrightarrow> node_started (stop_each ids ns ! k) = node_started (ns ! k)"
proof (induction ids ns rule: stop_each.induct)
  case (1 ns)
  then show ?case by simp
next
  case (2 s ss ns)
  then show ?case
    by (cases "s = k") (simp_all add: stop_def)
qed

lemma stop_each_keeps_stopped:
  "k < length ns \<Longrightarrow> node_stopped (ns ! k) \<Longrightarrow> node_stopped (stop_each ids ns ! k)"
proof (induction ids ns rule: stop_each.induct)
  case (1 ns)
  then show ?case by simp
next
  case (2 s ss ns)
  then show ?case
    by (cases "s = k") (simp_all add: stop_def)
qed

lemma stop_each_stops:
  "k \<in> set ids \<Longrightarrow> k < length ns \<Longrightarrow> node_started (ns ! k) \<Longrightarrow>
   node_stopped (stop_each ids ns ! k)"
proof (induction ids ns rule: stop_each.induct)
  case (1 ns)
  then show ?case by simp
next
  case (2 s ss ns)
  show ?case
  proof (cases "s = k")
    case True
    have "node_stopped ((ns[s := stop (ns ! s)]) ! k)"
      using True 2(3,4) by (simp add: stop_def)
    then show ?thesis
      using 2(3) by (simp add: stop_each_keeps_stopped)
  next
    case False
    with 2 show ?thesis
      by (simp add: stop_def)
  qed
qed

lemma pipeline_inv_start: "pipeline_inv (session_start cursor)"
  by (simp add: pipeline_inv_def session_start_def param_target_def)

lemma pipeline_inv_interrupted:
  assumes "pipeline_inv s"
  shows "pipeline_inv (on_interrupted c s)"
proof -
  obtain gain where g: "systemGainRef s = Some gain" and ctx: "audioContextRef s"
    using assms by (auto simp: pipeline_inv_def split: option.splits)
  show ?thesis
    by (simp add: on_interrupted_def Let_def g ctx pipeline_inv_def target_after_set)
qed

lemma pipeline_inv_ended:
  assumes "pipeline_inv s"
  shows "pipeline_inv (on_ended c source s)"
proof -
  obtain gain where g: "systemGainRef s = Some gain" and ctx: "audioContextRef s"
    and tgt: "param_target gain = (if audioSourcesRef s = [] then 7 / 10 else 0)"
    and ids: "list_all (\<lambda>k. k < length (nodes s) \<and> node_started (nodes s ! k)) (audioSourcesRef s)"
    using assms by (auto simp: pipeline_inv_def split: option.splits)
  show ?thesis
  proof (cases "set_delete source (audioSourcesRef s) = []")
    case True
    then show ?thesis
      by (simp add: on_ended_def Let_def g ctx pipeline_inv_def target_after_ramp)
  next
    case False
    then have "audioSourcesRef s \<noteq> []"
      by (auto simp: set_delete_def)
    with False tgt ids show ?thesis
      by (auto simp: on_ended_def Let_def g ctx pipeline_inv_def set_delete_def list_all_iff)
  qed
qed

lemma pipeline_inv_audio:
  assumes "pipeline_inv s"
  shows "pipeline_inv (snd (on_audio c audioBase64 s))"
proof (cases rule: on_audio_cases [of c audioBase64 s])
  case (1 e)
  with assms show ?thesis
    by (auto simp: pipeline_inv_def split: option.splits)
next
  case (2 audioData audioBuffer)
  obtain gain where g: "systemGainRef s = Some gain" and ctx: "audioContextRef s"
    and ids: "list_all (\<lambda>k. k < length (nodes s) \<and> node_started (nodes s ! k)) (audioSourcesRef s)"
    using assms by (auto simp: pipeline_inv_def split: option.splits)
  have ne: "set_add (length (nodes s)) (audioSourcesRef s) \<noteq> []"
    by (auto simp: set_add_def)
  have "list_all (\<lambda>k. k < Suc (length (nodes s)) \<and>
         node_started ((nodes s @ [\<lparr>node_duration = duration audioBuffer, node_started = True,
           node_when = cursor_after c s, node_stopped = False\<rparr>]) ! k))
       (set_add (length (nodes s)) (audioSourcesRef s))"
    using ids by (auto simp: set_add_def list_all_iff nth_append)
  then show ?thesis
    using ne by (simp add: on_audio_scheduled [OF 2] g ctx pipeline_inv_def target_after_ramp)
qed

lemma pipeline_inv_step:
  "pipeline_inv s \<Longrightarrow> pipeline_inv (step s e)"
proof (cases e)
  case (Message c message)
  assume "pipeline_inv s"
  then show ?thesis
    using Message
    by (auto simp: onmessage_def pipeline_inv_interrupted pipeline_inv_audio split: option.splits)
next
  case (Ended c source)
  assume "pipeline_inv s"
  then show ?thesis
    using Ended by (simp add: pipeline_inv_ended)
qed

lemma pipeline_inv_run:
  "pipeline_inv s \<Longrightarrow> pipeline_inv (run evs s)"
  by (induction evs arbitrary: s) (simp_all add: run_Nil run_Cons pipeline_inv_step)

lemma decodeAudio_one_zero_sample: "decodeAudio [65, 65, 65, 61] = Inr [0, 0]"
proof -
  have "atob [65, 65, 65, 61] = Inr [0, 0]"
    by (simp add: atob_def ascii_whitespace_def remove_padding_def b64_value_def)
  then show ?thesis
    by (simp add: decodeAudio_def decodeAudio_loop_map)
qed

lemma decodeAudioData_one_zero_sample:
  "decodeAudioData [0, 0] 24000 1 =
     Inr \<lparr>buf_sampleRate = 24000, buf_length = 1, buf_channels = [[Num 0]]\<rparr>"
  using decodeAudioData_one_sample [of 0] by (simp add: int16_bytes_def)

lemma on_audio_one_zero_sample:
  "on_audio c [65, 65, 65, 61] s =
    (None,
     s\<lparr>nextStartTimeRef := cursor_after c s + 1 / 24000,
       audioSourcesRef := set_add (length (nodes s)) (audioSourcesRef s),
       systemGainRef :=
         (case systemGainRef s of
            None \<Rightarrow> None
          | Some gain \<Rightarrow>
              Some (linearRampToValueAtTime 0 (inputCtx_currentTime c + 5 / 100)
                     (setValueAtTime (systemGain_value c) (inputCtx_currentTime c)
                       (cancelScheduledValues (inputCtx_currentTime c) gain)))),
       isModelSpeaking := True,
       nodes := nodes s @
         [\<lparr>node_duration = 1 / 24000, node_started = True,
           node_when = cursor_after c s, node_stopped = False\<rparr>]\<rparr>)"
  using on_audio_scheduled [OF decodeAudio_one_zero_sample decodeAudioData_one_zero_sample, of c s]
  by (simp add: duration_def)

text \<open>
  Claim C4. In every state the pipeline reaches from the start of a session, whatever
  callbacks fired, the secondary-source gain exists and its timeline ends at 0 when the
  playback set is not empty, and at the nominal 0.7 when it is empty. An interruption is
  handled within one callback, so none is ever pending between two states.
\<close>

theorem ducking_invariant:
  "\<exists>gain. systemGainRef (run evs (session_start cursor)) = Some gain \<and>
     (audioSourcesRef (run evs (session_start cursor)) \<noteq> [] \<longrightarrow> param_target gain = 0) \<and>
     (audioSourcesRef (run evs (session_start cursor)) = [] \<longrightarrow> param_target gain = 7 / 10)"
  using pipeline_inv_run [OF pipeline_inv_start, of evs cursor]
  by (auto simp: pipeline_inv_def split: option.splits)

text \<open>One frame: the set is \<open>[0]\<close> and the target 0. The frame ends: empty set, target 0.7.\<close>

theorem ducking_invariant_witness:
  "audioSourcesRef
     (run [Message \<lparr>outCtx_currentTime = 1, inputCtx_currentTime = 1, systemGain_value = 7 / 10\<rparr>
             \<lparr>interrupted = False, inlineData = Some [65, 65, 65, 61]\<rparr>] (session_start 0)) = [0] \<and>
   (\<exists>gain. systemGainRef
     (run [Message \<lparr>outCtx_currentTime = 1, inputCtx_currentTime = 1, systemGain_value = 7 / 10\<rparr>
             \<lparr>interrupted = False, inlineData = Some [65, 65, 65, 61]\<rparr>] (session_start 0)) = Some gain \<and>
      param_target gain = 0) \<and>
   audioSourcesRef
     (run [Message \<lparr>outCtx_currentTime = 1, inputCtx_currentTime = 1, systemGain_value = 7 / 10\<rparr>
             \<lparr>interrupted = False, inlineData = Some [65, 65, 65, 61]\<rparr>,
           Ended \<lparr>outCtx_currentTime = 2, inputCtx_currentTime = 2, systemGain_value = 0\<rparr> 0]
        (session_start 0)) = [] \<and>
   (\<exists>gain. systemGainRef
     (run [Message \<lparr>outCtx_currentTime = 1, inputCtx_currentTime = 1, systemGain_value = 7 / 10\<rparr>
             \<lparr>interrupted = False, inlineData = Some [65, 65, 65, 61]\<rparr>,
           Ended \<lparr>outCtx_currentTime = 2, inputCtx_currentTime = 2, systemGain_value = 0\<rparr> 0]
        (session_start 0)) = Some gain \<and>
      param_target gain = 7 / 10)"
proof -
  let ?m = "Message \<lparr>outCtx_currentTime = 1, inputCtx_currentTime = 1, systemGain_value = 7 / 10\<rparr>
             \<lparr>interrupted = False, inlineData = Some [65, 65, 65, 61]\<rparr>"
  let ?e = "Ended \<lparr>outCtx_currentTime = 2, inputCtx_currentTime = 2, systemGain_value = 0\<rparr> 0"
  have a: "audioSourcesRef (run [?m] (session_start 0)) = [0]"
    by (simp add: run_def onmessage_def on_audio_one_zero_sample session_start_def set_add_def)
  have b: "audioSourcesRef (run [?m, ?e] (session_start 0)) = []"
    by (simp add: run_def onmessage_def on_audio_one_zero_sample session_start_def set_add_def
        on_ended_def set_delete_def Let_def)
  show ?thesis
    using ducking_invariant [of "[?m]" 0] ducking_invariant [of "[?m, ?e]" 0]
    unfolding a b by simp
qed

text \<open>
  Claim C3. In any state \<open>s\<close> the pipeline reaches, handling a message with the interruption
  flag leaves the playback set empty and the cursor at 0; every node that was in the set
  had been started and is now stopped, however many there were; and the gain's timeline
  is the old one without the events at the current time or later (a ramp in flight ends
  later, so it is removed), followed by one \<^verbatim>\<open>setValueAtTime(0.7)\<close> at the current time:
  no ramp follows, and the timeline ends at 0.7.
\<close>

theorem interruption_clears:
  assumes "interrupted message" "s = run evs (session_start cursor)"
    "s' = snd (onmessage c message s)"
  shows "audioSourcesRef s' = [] \<and> nextStartTimeRef s' = 0 \<and>
    list_all (\<lambda>k. node_started (nodes s ! k) \<and> node_stopped (nodes s' ! k)) (audioSourcesRef s) \<and>
    (\<exists>gain. systemGainRef s = Some gain \<and>
       systemGainRef s' =
         Some (gain\<lparr>param_events :=
                 filter (\<lambda>e. event_time e < inputCtx_currentTime c) (param_events gain) @
                 [SetValueAtTime (7 / 10) (inputCtx_currentTime c)]\<rparr>) \<and>
       param_target (gain\<lparr>param_events :=
                 filter (\<lambda>e. event_time e < inputCtx_currentTime c) (param_events gain) @
                 [SetValueAtTime (7 / 10) (inputCtx_currentTime c)]\<rparr>) = 7 / 10)"
proof -
  have inv: "pipeline_inv s"
    unfolding assms(2) by (rule pipeline_inv_run [OF pipeline_inv_start])
  then obtain gain where g: "systemGainRef s = Some gain" and ctx: "audioContextRef s"
    and ids: "list_all (\<lambda>k. k < length (nodes s) \<and> node_started (nodes s ! k)) (audioSourcesRef s)"
    by (auto simp: pipeline_inv_def split: option.splits)
  have s': "s' = on_interrupted c s"
    using assms(1,3) by (simp add: onmessage_def)
  have gain': "setValueAtTime (7 / 10) (inputCtx_currentTime c)
        (cancelScheduledValues (inputCtx_currentTime c) gain) =
      gain\<lparr>param_events :=
             filter (\<lambda>e. event_time e < inputCtx_currentTime c) (param_events gain) @
             [SetValueAtTime (7 / 10) (inputCtx_currentTime c)]\<rparr>"
    using set_after_cancel [of "7 / 10" "inputCtx_currentTime c" gain]
    by (simp add: setValueAtTime_def cancelScheduledValues_def)
  have nodes': "nodes s' = stop_each (audioSourcesRef s) (nodes s)"
    by (simp add: s' on_interrupted_def Let_def g ctx)
  have stopped: "list_all (\<lambda>k. node_started (nodes s ! k) \<and> node_stopped (nodes s' ! k))
      (audioSourcesRef s)"
    using ids by (auto simp: list_all_iff nodes' stop_each_stops)
  have "audioSourcesRef s' = []" "nextStartTimeRef s' = 0"
    by (simp_all add: s' on_interrupted_def Let_def g ctx)
  moreover have "systemGainRef s' = Some (setValueAtTime (7 / 10) (inputCtx_currentTime c)
        (cancelScheduledValues (inputCtx_currentTime c) gain))"
    by (simp add: s' on_interrupted_def Let_def g ctx)
  moreover have "param_target (setValueAtTime (7 / 10) (inputCtx_currentTime c)
        (cancelScheduledValues (inputCtx_currentTime c) gain)) = 7 / 10"
    by (rule target_after_set)
  ultimately show ?thesis
    using stopped g unfolding gain' by simp
qed

text \<open>Two frames are playing when the interruption arrives: both are stopped.\<close>

theorem interruption_clears_witness:
  "audioSourcesRef
     (run [Message \<lparr>outCtx_currentTime = 1, inputCtx_currentTime = 1, systemGain_value = 7 / 10\<rparr>
             \<lparr>interrupted = False, inlineData = Some [65, 65, 65, 61]\<rparr>,
           Message \<lparr>outCtx_currentTime = 1, inputCtx_currentTime = 1, systemGain_value = 7 / 10\<rparr>
             \<lparr>interrupted = False, inlineData = Some [65, 65, 65, 61]\<rparr>] (session_start 0)) = [0, 1] \<and>
   audioSourcesRef
     (snd (onmessage \<lparr>outCtx_currentTime = 1, inputCtx_currentTime = 1, systemGain_value = 1 / 2\<rparr>
        \<lparr>interrupted = True, inlineData = None\<rparr>
        (run [Message \<lparr>outCtx_currentTime = 1, inputCtx_currentTime = 1, systemGain_value = 7 / 10\<rparr>
                \<lparr>interrupted = False, inlineData = Some [65, 65, 65, 61]\<rparr>,
              Message \<lparr>outCtx_currentTime = 1, inputCtx_currentTime = 1, systemGain_value = 7 / 10\<rparr>
                \<lparr>interrupted = False, inlineData = Some [65, 65, 65, 61]\<rparr>] (session_start 0)))) = [] \<and>
   nextStartTimeRef
     (snd (onmessage \<lparr>outCtx_currentTime = 1, inputCtx_currentTime = 1, systemGain_value = 1 / 2\<rparr>
        \<lparr>interrupted = True, inlineData = None\<rparr>
        (run [Message \<lparr>outCtx_currentTime = 1, inputCtx_currentTime = 1, systemGain_value = 7 / 10\<rparr>
                \<lparr>interrupted = False, inlineData = Some [65, 65, 65, 61]\<rparr>,
              Message \<lparr>outCtx_currentTime = 1, inputCtx_currentTime = 1, systemGain_value = 7 / 10\<rparr>
                \<lparr>interrupted = False, inlineData = Some [65, 65, 65, 61]\<rparr>] (session_start 0)))) = 0 \<and>
   list_all (\<lambda>k. node_stopped (nodes
     (snd (onmessage \<lparr>outCtx_currentTime = 1, inputCtx_currentTime = 1, systemGain_value = 1 / 2\<rparr>
        \<lparr>interrupted = True, inlineData = None\<rparr>
        (run [Message \<lparr>outCtx_currentTime = 1, inputCtx_currentTime = 1, systemGain_value = 7 / 10\<rparr>
                \<lparr>interrupted = False, inlineData = Some [65, 65, 65, 61]\<rparr>,
              Message \<lparr>outCtx_currentTime = 1, inputCtx_currentTime = 1, systemGain_value = 7 / 10\<rparr>
                \<lparr>interrupted = False, inlineData = Some [65, 65, 65, 61]\<rparr>] (session_start 0)))) ! k))
     [0, 1]"
proof -
  let ?c = "\<lparr>outCtx_currentTime = 1, inputCtx_currentTime = 1, systemGain_value = 7 / 10\<rparr>"
  let ?m = "Message ?c \<lparr>interrupted = False, inlineData = Some [65, 65, 65, 61]\<rparr>"
  let ?s = "run [?m, ?m] (session_start 0)"
  let ?s' = "snd (onmessage \<lparr>outCtx_currentTime = 1, inputCtx_currentTime = 1, systemGain_value = 1 / 2\<rparr>
        \<lparr>interrupted = True, inlineData = None\<rparr> ?s)"
  have a: "audioSourcesRef ?s = [0, 1]"
    by (simp add: run_def onmessage_def on_audio_one_zero_sample session_start_def set_add_def)
  have "audioSourcesRef ?s' = [] \<and> nextStartTimeRef ?s' = 0 \<and>
    list_all (\<lambda>k. node_started (nodes ?s ! k) \<and> node_stopped (nodes ?s' ! k)) (audioSourcesRef ?s)"
    using interruption_clears [of "\<lparr>interrupted = True, inlineData = None\<rparr>" ?s "[?m, ?m]" 0 ?s'
        "\<lparr>outCtx_currentTime = 1, inputCtx_currentTime = 1, systemGain_value = 1 / 2\<rparr>"]
    by simp
  then show ?thesis
    unfolding a using a by simp
qed

lemma schedule_inv_refl: "schedule_inv (length (nodes s)) s"
  by (auto simp: schedule_inv_def)

lemma cursor_follows_after:
  assumes "cursor_follows n (nextStartTimeRef s)"
  shows "cursor_follows n (cursor_after c s)"
  using assms by (auto simp: cursor_follows_def cursor_after_def)

lemma schedule_inv_cursor:
  assumes "schedule_inv n0 s"
  shows "schedule_inv n0 (s\<lparr>nextStartTimeRef := cursor_after c s\<rparr>)"
  using assms by (auto simp: schedule_inv_def intro: cursor_follows_after)

lemma schedule_inv_audio:
  assumes "schedule_inv n0 s"
  shows "schedule_inv n0 (snd (on_audio c audioBase64 s))"
proof (cases rule: on_audio_cases [of c audioBase64 s])
  case (1 e)
  with assms show ?thesis
    by (simp add: schedule_inv_cursor)
next
  case (2 audioData audioBuffer)
  let ?new = "\<lparr>node_duration = duration audioBuffer, node_started = True,
           node_when = cursor_after c s, node_stopped = False\<rparr>"
  let ?ns = "nodes s @ [?new]"
  have dur: "0 \<le> duration audioBuffer"
    by (simp add: decodeAudioData_duration [OF 2(2)])
  have len: "n0 \<le> length (nodes s)"
    using assms by (simp add: schedule_inv_def)
  have pairs: "0 \<le> node_duration (?ns ! k) \<and> cursor_follows (?ns ! k) (node_when (?ns ! Suc k))"
    if k: "n0 \<le> k" "Suc k < length ?ns" for k
  proof (cases "Suc k < length (nodes s)")
    case True
    then show ?thesis
      using assms k(1) by (simp add: schedule_inv_def nth_append)
  next
    case False
    with k(2) have eq: "Suc k = length (nodes s)" by simp
    then have last: "nodes s ! k = last (nodes s)"
      by (metis diff_Suc_1 last_conv_nth length_0_conv nat.distinct(1))
    have "n0 < length (nodes s)"
      using k(1) eq by simp
    then have "0 \<le> node_duration (last (nodes s))"
        "cursor_follows (last (nodes s)) (nextStartTimeRef s)"
      using assms by (simp_all add: schedule_inv_def)
    then show ?thesis
      using eq last by (simp add: nth_append cursor_follows_after)
  qed
  have "cursor_follows ?new (cursor_after c s + duration audioBuffer)"
    by (simp add: cursor_follows_def)
  with pairs dur len show ?thesis
    unfolding on_audio_scheduled [OF 2] schedule_inv_def by simp
qed

lemma schedule_inv_step:
  assumes "schedule_inv n0 s" "\<not> is_interruption e"
  shows "schedule_inv n0 (step s e)"
proof (cases e)
  case (Message c message)
  with assms show ?thesis
    by (auto simp: onmessage_def schedule_inv_audio split: option.splits)
next
  case (Ended c source)
  with assms(1) show ?thesis
    by (auto simp: on_ended_def Let_def schedule_inv_def split: option.splits)
qed

lemma schedule_inv_run:
  "schedule_inv n0 s \<Longrightarrow> list_all (\<lambda>e. \<not> is_interruption e) evs \<Longrightarrow>
   schedule_inv n0 (run evs s)"
  by (induction evs arbitrary: s) (simp_all add: run_Nil run_Cons schedule_inv_step)

lemma schedule_inv_sorted:
  assumes "schedule_inv n0 s"
  shows "sorted (map node_when (drop n0 (nodes s)))"
proof -
  have "node_when (nodes s ! (n0 + i)) \<le> node_when (nodes s ! (n0 + Suc i))"
    if "Suc i < length (nodes s) - n0" for i
  proof -
    have k: "n0 \<le> n0 + i" "Suc (n0 + i) < length (nodes s)"
      using that by simp_all
    then have "0 \<le> node_duration (nodes s ! (n0 + i))"
      "cursor_follows (nodes s ! (n0 + i)) (node_when (nodes s ! Suc (n0 + i)))"
      using assms unfolding schedule_inv_def by blast+
    then show ?thesis
      by (auto simp: cursor_follows_def)
  qed
  then show ?thesis
    by (simp add: sorted_iff_nth_Suc)
qed

text \<open>
  Claim C2. First part: in a run without interruption from any state \<open>s0\<close>, the start
  times of the nodes scheduled during the run are non-decreasing; of two nodes scheduled
  one after the other, the
  later one starts exactly at the earlier one's start plus its duration, unless the cursor
  had fallen behind the output time in between, in which case it starts more than the
  0.05 s look-ahead after that. Second part: handling one frame that decodes, in any state
  (after an interruption the cursor is 0), schedules the node at the cursor, or at the
  output time plus 0.05 when the cursor is behind it, with duration sample count / 24000,
  and leaves the cursor at that start plus that duration, whatever the clock reads.
\<close>

theorem playback_schedule:
  "(list_all (\<lambda>e. \<not> is_interruption e) evs \<longrightarrow>
      sorted (map node_when (drop (length (nodes s0)) (nodes (run evs s0)))) \<and>
      (\<forall>k. length (nodes s0) \<le> k \<and> Suc k < length (nodes (run evs s0)) \<longrightarrow>
         node_when (nodes (run evs s0) ! k) \<le> node_when (nodes (run evs s0) ! Suc k) \<and>
         (node_when (nodes (run evs s0) ! Suc k) =
            node_when (nodes (run evs s0) ! k) + node_duration (nodes (run evs s0) ! k) \<or>
          node_when (nodes (run evs s0) ! k) + node_duration (nodes (run evs s0) ! k) + 5 / 100 <
            node_when (nodes (run evs s0) ! Suc k)))) \<and>
   (\<not> interrupted message \<and> inlineData message = Some audioBase64 \<and> audioBase64 \<noteq> [] \<and>
    audioContextRef s \<and> decodeAudio audioBase64 = Inr audioData \<and>
    decodeAudioData audioData 24000 1 = Inr audioBuffer \<longrightarrow>
      nodes (snd (onmessage c message s)) =
        nodes s @
        [\<lparr>node_duration = real (length (int16_view audioData)) / 24000, node_started = True,
          node_when =
            (if nextStartTimeRef s < outCtx_currentTime c then outCtx_currentTime c + 5 / 100
             else nextStartTimeRef s),
          node_stopped = False\<rparr>] \<and>
      nextStartTimeRef (snd (onmessage c message s)) =
        (if nextStartTimeRef s < outCtx_currentTime c then outCtx_currentTime c + 5 / 100
         else nextStartTimeRef s) + real (length (int16_view audioData)) / 24000)"
proof (intro conjI impI allI)
  assume evs: "list_all (\<lambda>e. \<not> is_interruption e) evs"
  have "schedule_inv (length (nodes s0)) (run evs s0)"
    using schedule_inv_refl evs by (rule schedule_inv_run)
  then show "sorted (map node_when (drop (length (nodes s0)) (nodes (run evs s0))))"
    by (rule schedule_inv_sorted)
next
  fix k
  assume evs: "list_all (\<lambda>e. \<not> is_interruption e) evs"
    and k: "length (nodes s0) \<le> k \<and> Suc k < length (nodes (run evs s0))"
  let ?s = "run evs s0"
  have "schedule_inv (length (nodes s0)) ?s"
    using schedule_inv_refl evs by (rule schedule_inv_run)
  then have d: "0 \<le> node_duration (nodes ?s ! k)"
    and f: "cursor_follows (nodes ?s ! k) (node_when (nodes ?s ! Suc k))"
    using k by (simp_all add: schedule_inv_def)
  from f show "node_when (nodes ?s ! Suc k) = node_when (nodes ?s ! k) + node_duration (nodes ?s ! k) \<or>
      node_when (nodes ?s ! k) + node_duration (nodes ?s ! k) + 5 / 100 < node_when (nodes ?s ! Suc k)"
    by (simp add: cursor_follows_def)
  from f d show "node_when (nodes ?s ! k) \<le> node_when (nodes ?s ! Suc k)"
    by (auto simp: cursor_follows_def)
next
  assume h: "\<not> interrupted message \<and> inlineData message = Some audioBase64 \<and> audioBase64 \<noteq> [] \<and>
    audioContextRef s \<and> decodeAudio audioBase64 = Inr audioData \<and>
    decodeAudioData audioData 24000 1 = Inr audioBuffer"
  then have dec: "decodeAudio audioBase64 = Inr audioData"
      "decodeAudioData audioData 24000 1 = Inr audioBuffer"
    by simp_all
  have on: "onmessage c message s = on_audio c audioBase64 s"
    using h by (simp add: onmessage_def)
  show "nodes (snd (onmessage c message s)) =
        nodes s @
        [\<lparr>node_duration = real (length (int16_view audioData)) / 24000, node_started = True,
          node_when =
            (if nextStartTimeRef s < outCtx_currentTime c then outCtx_currentTime c + 5 / 100
             else nextStartTimeRef s),
          node_stopped = False\<rparr>]"
    unfolding on on_audio_scheduled [OF dec]
    by (simp add: decodeAudioData_duration [OF dec(2)] cursor_after_def)
  show "nextStartTimeRef (snd (onmessage c message s)) =
        (if nextStartTimeRef s < outCtx_currentTime c then outCtx_currentTime c + 5 / 100
         else nextStartTimeRef s) + real (length (int16_view audioData)) / 24000"
    unfolding on on_audio_scheduled [OF dec]
    by (simp add: decodeAudioData_duration [OF dec(2)] cursor_after_def)
qed

text \<open>
  Three one-sample frames handled at output time 1 from a fresh session: the first starts
  at 1.05, the next two follow back to back.
\<close>

theorem playback_schedule_witness:
  "map node_when
     (nodes (run [Message \<lparr>outCtx_currentTime = 1, inputCtx_currentTime = 1, systemGain_value = 7 / 10\<rparr>
                    \<lparr>interrupted = False, inlineData = Some [65, 65, 65, 61]\<rparr>,
                  Message \<lparr>outCtx_currentTime = 1, inputCtx_currentTime = 1, systemGain_value = 0\<rparr>
                    \<lparr>interrupted = False, inlineData = Some [65, 65, 65, 61]\<rparr>,
                  Message \<lparr>outCtx_currentTime = 1, inputCtx_currentTime = 1, systemGain_value = 0\<rparr>
                    \<lparr>interrupted = False, inlineData = Some [65, 65, 65, 61]\<rparr>]
             (session_start 0))) =
     [21 / 20, 21 / 20 + 1 / 24000, 21 / 20 + 2 / 24000] \<and>
   sorted (map node_when
     (nodes (run [Message \<lparr>outCtx_currentTime = 1, inputCtx_currentTime = 1, systemGain_value = 7 / 10\<rparr>
                    \<lparr>interrupted = False, inlineData = Some [65, 65, 65, 61]\<rparr>,
                  Message \<lparr>outCtx_currentTime = 1, inputCtx_currentTime = 1, systemGain_value = 0\<rparr>
                    \<lparr>interrupted = False, inlineData = Some [65, 65, 65, 61]\<rparr>,
                  Message \<lparr>outCtx_currentTime = 1, inputCtx_currentTime = 1, systemGain_value = 0\<rparr>
                    \<lparr>interrupted = False, inlineData = Some [65, 65, 65, 61]\<rparr>]
             (session_start 0)))) \<and>
   nextStartTimeRef
     (snd (onmessage \<lparr>outCtx_currentTime = 1, inputCtx_currentTime = 1, systemGain_value = 7 / 10\<rparr>
        \<lparr>interrupted = False, inlineData = Some [65, 65, 65, 61]\<rparr> (session_start 0))) =
     21 / 20 + 1 / 24000"
proof -
  let ?c1 = "\<lparr>outCtx_currentTime = 1, inputCtx_currentTime = 1, systemGain_value = 7 / 10\<rparr>"
  let ?c2 = "\<lparr>outCtx_currentTime = 1, inputCtx_currentTime = 1, systemGain_value = 0\<rparr>"
  let ?m = "\<lparr>interrupted = False, inlineData = Some [65, 65, 65, 61]\<rparr>"
  let ?evs = "[Message ?c1 ?m, Message ?c2 ?m, Message ?c2 ?m]"
  have a: "map node_when (nodes (run ?evs (session_start 0))) =
      [21 / 20, 21 / 20 + 1 / 24000, 21 / 20 + 2 / 24000]"
    by (simp add: run_def onmessage_def on_audio_one_zero_sample session_start_def cursor_after_def)
  have "sorted (map node_when (nodes (run ?evs (session_start 0)))) \<and>
      nextStartTimeRef (snd (onmessage ?c1 ?m (session_start 0))) =
      (if nextStartTimeRef (session_start 0) < outCtx_currentTime ?c1
       then outCtx_currentTime ?c1 + 5 / 100 else nextStartTimeRef (session_start 0)) +
      real (length (int16_view [0, 0 :: byte])) / 24000"
    using playback_schedule [of ?evs "session_start 0" ?m "[65, 65, 65, 61]" "session_start 0"
        "[0, 0]" "\<lparr>buf_sampleRate = 24000, buf_length = 1, buf_channels = [[Num 0]]\<rparr>" ?c1]
      decodeAudio_one_zero_sample decodeAudioData_one_zero_sample
    by (simp add: session_start_def)
  then have b: "sorted (map node_when (nodes (run ?evs (session_start 0))))"
      "nextStartTimeRef (snd (onmessage ?c1 ?m (session_start 0))) = 21 / 20 + 1 / 24000"
    by (simp_all add: session_start_def)
  from a b show ?thesis by blast
qed

end
